theory Spec2Isabelle
  imports Complex_Main "HOL-Library.AList" "HOL-Library.Sublist"
begin

section \<open>Decoded JSON values and the Python operations the repair script applies to them\<close>

text \<open>
  The script \<^verbatim>\<open>scripts/fix-openclaw-session.py\<close> works on the values that
  \<^verbatim>\<open>json.loads\<close> returns. A float is kept by its exact value; Python compares and
  hashes \<^verbatim>\<open>True\<close>, \<^verbatim>\<open>1\<close> and \<^verbatim>\<open>1.0\<close> alike. A dictionary is an association list
  in the order of its keys, read with \<^const>\<open>map_of\<close>; Python's \<^verbatim>\<open>None\<close> is \<open>JNull\<close>.

  The functions \<^verbatim>\<open>json.loads\<close> and \<^verbatim>\<open>json.dumps\<close> of the standard library are
  parameters \<open>loads\<close> and \<open>dumps\<close> of the model, and so is the order \<open>set_iter\<close>
  in which a \<^verbatim>\<open>set\<close> is iterated. A session file is its text as Python's text layer
  reads and writes it; the backup copy, the discovery of the files and the errors of the
  operating system are outside of the model. The text layer encodes what it writes as
  UTF-8, and a string that \<^verbatim>\<open>json.dumps\<close> returns can hold a code point that UTF-8
  does not encode (a lone surrogate): whether a text can be encoded is the parameter
  \<open>encodable\<close>. Every \<^verbatim>\<open>TypeError\<close> and \<^verbatim>\<open>AttributeError\<close> that the script can
  raise on a decoded value, and the \<^verbatim>\<open>UnicodeEncodeError\<close> of the write, is a result
  \<open>Inl\<close> of the model.
\<close>

datatype pyfloat = Finite rat | PosInf | NegInf | NaN

datatype json =
    JNull
  | JBool bool
  | JInt int
  | JFloat pyfloat
  | JStr string
  | JArr "json list"
  | JObj "(string \<times> json) list"

text \<open>The exceptions the script can raise on a decoded value, and the one that the
  write of the corrected file can raise.\<close>

datatype error = AttributeError | TypeError | UnicodeEncodeError

text \<open>A hashable value as a member of a \<^verbatim>\<open>set\<close> or a key of a \<^verbatim>\<open>dict\<close>.\<close>

datatype hkey = KNone | KNum pyfloat | KStr string

fun hash_key :: "json \<Rightarrow> error + hkey" where
  "hash_key JNull = Inr KNone"
| "hash_key (JBool b) = Inr (KNum (Finite (if b then 1 else 0)))"
| "hash_key (JInt i) = Inr (KNum (Finite (of_int i)))"
| "hash_key (JFloat f) = Inr (KNum f)"
| "hash_key (JStr s) = Inr (KStr s)"
| "hash_key (JArr xs) = Inl TypeError"
| "hash_key (JObj kvs) = Inl TypeError"

fun truthy :: "json \<Rightarrow> bool" where
  "truthy JNull = False"
| "truthy (JBool b) = b"
| "truthy (JInt i) = (i \<noteq> 0)"
| "truthy (JFloat f) = (f \<noteq> Finite 0)"
| "truthy (JStr s) = (s \<noteq> [])"
| "truthy (JArr xs) = (xs \<noteq> [])"
| "truthy (JObj kvs) = (kvs \<noteq> [])"

text \<open>\<^verbatim>\<open>d.get(k, default)\<close> on a dictionary.\<close>

definition obj_get :: "(string \<times> json) list \<Rightarrow> string \<Rightarrow> json \<Rightarrow> json" where
  "obj_get kvs k d = (case map_of kvs k of None \<Rightarrow> d | Some v \<Rightarrow> v)"

text \<open>\<^verbatim>\<open>x.get(k, default)\<close> on any value: only a dictionary has the method.\<close>

fun dict_get :: "json \<Rightarrow> string \<Rightarrow> json \<Rightarrow> error + json" where
  "dict_get (JObj kvs) k d = Inr (obj_get kvs k d)"
| "dict_get _ k d = Inl AttributeError"

text \<open>\<^verbatim>\<open>x in S\<close> for a set \<open>S\<close> of strings: the value is hashed first.\<close>

fun in_str_set :: "json \<Rightarrow> string list \<Rightarrow> error + bool" where
  "in_str_set (JStr s) S = Inr (s \<in> set S)"
| "in_str_set (JArr xs) S = Inl TypeError"
| "in_str_set (JObj kvs) S = Inl TypeError"
| "in_str_set _ S = Inr False"

text \<open>\<^verbatim>\<open>s in x\<close> for a string \<open>s\<close>: substring of a string, element of a list, key of a
  dictionary; any other right operand is not iterable.\<close>

fun str_in :: "string \<Rightarrow> json \<Rightarrow> error + bool" where
  "str_in s (JStr t) = Inr (sublist s t)"
| "str_in s (JArr xs) = Inr (JStr s \<in> set xs)"
| "str_in s (JObj kvs) = Inr (s \<in> fst ` set kvs)"
| "str_in s _ = Inl TypeError"

text \<open>\<^verbatim>\<open>k in x\<close> for a member \<open>k\<close> of a set: a string on the right accepts only a
  string on the left.\<close>

fun key_in :: "hkey \<Rightarrow> json \<Rightarrow> error + bool" where
  "key_in (KStr s) (JStr t) = Inr (sublist s t)"
| "key_in k (JStr t) = Inl TypeError"
| "key_in k (JArr xs) = Inr (\<exists>x \<in> set xs. hash_key x = Inr k)"
| "key_in (KStr s) (JObj kvs) = Inr (s \<in> fst ` set kvs)"
| "key_in k (JObj kvs) = Inr False"
| "key_in k _ = Inl TypeError"

text \<open>\<^verbatim>\<open>x[:80]\<close>: strings and lists can be sliced, nothing else (a dictionary raises
  \<^verbatim>\<open>TypeError\<close> too, \<^verbatim>\<open>KeyError\<close> from Python 3.12 on; the model has the former).\<close>

fun slice80 :: "json \<Rightarrow> error + json" where
  "slice80 (JStr s) = Inr (JStr (take 80 s))"
| "slice80 (JArr xs) = Inr (JArr (take 80 xs))"
| "slice80 _ = Inl TypeError"

text \<open>\<^verbatim>\<open>sorted(S)\<close> raises as soon as two members cannot be ordered: \<^verbatim>\<open>None\<close> with
  anything, a number with a string. Whether it raises and which members it returns
  is what the model has; the members stay in the order in which they were found.\<close>

fun comparable :: "hkey \<Rightarrow> hkey \<Rightarrow> bool" where
  "comparable (KNum a) (KNum b) = True"
| "comparable (KStr a) (KStr b) = True"
| "comparable _ _ = False"

definition sortable :: "hkey list \<Rightarrow> bool" where
  "sortable ks = (\<forall>a \<in> set ks. \<forall>b \<in> set ks. a = b \<or> comparable a b)"

definition py_sorted :: "hkey list \<Rightarrow> error + hkey list" where
  "py_sorted ks = (if sortable ks then Inr ks else Inl TypeError)"

section \<open>Helpers of the script\<close>

definition TOOL_CALL_TYPES :: "string list" where
  "TOOL_CALL_TYPES = [''toolCall'', ''toolUse'', ''functionCall'']"

definition TOOL_RESULT_ROLES :: "string list" where
  "TOOL_RESULT_ROLES = [''toolResult'', ''tool_result'']"

definition newline :: char where
  "newline = CHR 0x0A"

text \<open>The lines of a text file as Python's file iteration delivers them, the
  terminator stripped.\<close>

fun file_lines :: "string \<Rightarrow> string list" where
  "file_lines [] = []"
| "file_lines (c # cs) =
     (if c = newline then [] # file_lines cs
      else (case file_lines cs of [] \<Rightarrow> [[c]] | l # ls \<Rightarrow> (c # l) # ls))"

text \<open>\<^verbatim>\<open>"\n".join(output)\<close>.\<close>

fun join_nl :: "string list \<Rightarrow> string" where
  "join_nl [] = []"
| "join_nl [x] = x"
| "join_nl (x # y # ys) = x @ newline # join_nl (y # ys)"

text \<open>One entry of \<^verbatim>\<open>parse_jsonl\<close>: line number, decoded object (\<open>JNull\<close> when the
  line does not decode), raw line.\<close>

type_synonym entry = "nat \<times> json \<times> string"

definition decode_line :: "(string \<Rightarrow> json option) \<Rightarrow> string \<Rightarrow> json" where
  "decode_line loads raw = (case loads raw of None \<Rightarrow> JNull | Some v \<Rightarrow> v)"

definition parse_jsonl :: "(string \<Rightarrow> json option) \<Rightarrow> string \<Rightarrow> entry list" where
  "parse_jsonl loads file =
     map (\<lambda>(i, raw). (i, decode_line loads raw, raw))
       (filter (\<lambda>(i, raw). raw \<noteq> []) (enumerate 1 (file_lines file)))"

definition get_role :: "json \<Rightarrow> error + json" where
  "get_role obj =
     (case dict_get obj ''message'' JNull of
        Inl e \<Rightarrow> Inl e
      | Inr (JObj m) \<Rightarrow> Inr (obj_get m ''role'' JNull)
      | Inr _ \<Rightarrow> Inr JNull)"

definition get_id :: "json \<Rightarrow> error + json" where
  "get_id obj = dict_get obj ''id'' (JStr [])"

definition get_parent_id :: "json \<Rightarrow> error + json" where
  "get_parent_id obj = dict_get obj ''parentId'' (JStr [])"

text \<open>\<^verbatim>\<open>obj.get("message", {}).get("content", [])\<close>.\<close>

definition message_field :: "json \<Rightarrow> string \<Rightarrow> json \<Rightarrow> error + json" where
  "message_field obj k d =
     (case dict_get obj ''message'' (JObj []) of
        Inl e \<Rightarrow> Inl e
      | Inr msg \<Rightarrow> dict_get msg k d)"

fun collect_call_ids :: "json list \<Rightarrow> hkey list \<Rightarrow> error + hkey list" where
  "collect_call_ids [] ids = Inr ids"
| "collect_call_ids (JObj b # bs) ids =
     (case in_str_set (obj_get b ''type'' JNull) TOOL_CALL_TYPES of
        Inl e \<Rightarrow> Inl e
      | Inr False \<Rightarrow> collect_call_ids bs ids
      | Inr True \<Rightarrow>
          (let block_id = obj_get b ''id'' (JStr []) in
           if truthy block_id then
             (case hash_key block_id of
                Inl e \<Rightarrow> Inl e
              | Inr k \<Rightarrow> collect_call_ids bs (List.insert k ids))
           else collect_call_ids bs ids))"
| "collect_call_ids (_ # bs) ids = collect_call_ids bs ids"

definition extract_tool_call_ids :: "json \<Rightarrow> error + hkey list" where
  "extract_tool_call_ids obj =
     (case message_field obj ''content'' (JArr []) of
        Inl e \<Rightarrow> Inl e
      | Inr (JArr content) \<Rightarrow> collect_call_ids content []
      | Inr _ \<Rightarrow> Inr [])"

fun any_partial_json :: "json list \<Rightarrow> error + bool" where
  "any_partial_json [] = Inr False"
| "any_partial_json (JObj b # bs) =
     (case in_str_set (obj_get b ''type'' JNull) TOOL_CALL_TYPES of
        Inl e \<Rightarrow> Inl e
      | Inr True \<Rightarrow>
          (if ''partialJson'' \<in> fst ` set b then Inr True else any_partial_json bs)
      | Inr False \<Rightarrow> any_partial_json bs)"
| "any_partial_json (_ # bs) = any_partial_json bs"

definition has_partial_json :: "json \<Rightarrow> error + bool" where
  "has_partial_json obj =
     (case message_field obj ''content'' (JArr []) of
        Inl e \<Rightarrow> Inl e
      | Inr (JArr content) \<Rightarrow> any_partial_json content
      | Inr _ \<Rightarrow> Inr False)"

definition is_error_assistant :: "json \<Rightarrow> error + bool" where
  "is_error_assistant obj =
     (case message_field obj ''stopReason'' JNull of
        Inl e \<Rightarrow> Inl e
      | Inr v \<Rightarrow> Inr (v = JStr ''error''))"

definition is_empty_error_assistant :: "json \<Rightarrow> error + bool" where
  "is_empty_error_assistant obj =
     (case dict_get obj ''message'' (JObj []) of
        Inl e \<Rightarrow> Inl e
      | Inr msg \<Rightarrow>
          (case dict_get msg ''role'' JNull of
             Inl e \<Rightarrow> Inl e
           | Inr role \<Rightarrow>
               if role \<noteq> JStr ''assistant'' then Inr False
               else
                 (case dict_get msg ''content'' (JArr []) of
                    Inl e \<Rightarrow> Inl e
                  | Inr content \<Rightarrow>
                      (case dict_get msg ''errorMessage'' (JStr []) of
                         Inl e \<Rightarrow> Inl e
                       | Inr err \<Rightarrow>
                           if content = JArr [] \<or> content = JNull
                           then str_in ''tool_use_id'' err
                           else Inr False))))"

definition get_tool_result_id :: "json \<Rightarrow> error + json" where
  "get_tool_result_id obj =
     (case dict_get obj ''message'' (JObj []) of
        Inl e \<Rightarrow> Inl e
      | Inr msg \<Rightarrow>
          (case dict_get msg ''role'' JNull of
             Inl e \<Rightarrow> Inl e
           | Inr role \<Rightarrow>
               (case in_str_set role TOOL_RESULT_ROLES of
                  Inl e \<Rightarrow> Inl e
                | Inr False \<Rightarrow> Inr JNull
                | Inr True \<Rightarrow>
                    (case dict_get msg ''toolCallId'' JNull of
                       Inl e \<Rightarrow> Inl e
                     | Inr a \<Rightarrow>
                         if truthy a then Inr a
                         else
                           (case dict_get msg ''toolUseId'' JNull of
                              Inl e \<Rightarrow> Inl e
                            | Inr b \<Rightarrow> if truthy b then Inr b else Inr JNull)))))"

fun collect_result_ids :: "json list \<Rightarrow> hkey list \<Rightarrow> error + hkey list" where
  "collect_result_ids [] ids = Inr ids"
| "collect_result_ids (JObj b # bs) ids =
     (if obj_get b ''type'' JNull = JStr ''tool_result'' then
        (let tuid = obj_get b ''tool_use_id'' (JStr []) in
         if truthy tuid then
           (case hash_key tuid of
              Inl e \<Rightarrow> Inl e
            | Inr k \<Rightarrow> collect_result_ids bs (List.insert k ids))
         else collect_result_ids bs ids)
      else collect_result_ids bs ids)"
| "collect_result_ids (_ # bs) ids = collect_result_ids bs ids"

definition get_tool_result_ids_from_user :: "json \<Rightarrow> error + hkey list" where
  "get_tool_result_ids_from_user obj =
     (case dict_get obj ''message'' (JObj []) of
        Inl e \<Rightarrow> Inl e
      | Inr msg \<Rightarrow>
          (case dict_get msg ''role'' JNull of
             Inl e \<Rightarrow> Inl e
           | Inr role \<Rightarrow>
               if role \<noteq> JStr ''user'' then Inr []
               else
                 (case dict_get msg ''content'' (JArr []) of
                    Inl e \<Rightarrow> Inl e
                  | Inr (JArr content) \<Rightarrow> collect_result_ids content []
                  | Inr _ \<Rightarrow> Inr [])))"

section \<open>Loops that an exception aborts\<close>

definition bindE :: "error + 'a \<Rightarrow> ('a \<Rightarrow> error + 'b) \<Rightarrow> error + 'b" where
  "bindE m f = (case m of Inl e \<Rightarrow> Inl e | Inr v \<Rightarrow> f v)"

text \<open>A \<^verbatim>\<open>for\<close> loop over a list whose body updates the local state or raises.\<close>

fun for_each :: "('s \<Rightarrow> 'a \<Rightarrow> error + 's) \<Rightarrow> 's \<Rightarrow> 'a list \<Rightarrow> error + 's" where
  "for_each f s [] = Inr s"
| "for_each f s (x # xs) = bindE (f s x) (\<lambda>s'. for_each f s' xs)"

section \<open>\<^verbatim>\<open>analyze_session\<close>\<close>

text \<open>The reason strings are kept as the tag and the value the f-string formats.\<close>

datatype reason =
    ErrorPartialJson json
  | OrphanToolResult json
  | Cascade400 hkey

text \<open>The local variables the first three passes fill in.\<close>

record scan =
  broken_assistant_ids :: "hkey list"
  broken_tool_call_ids :: "hkey list"
  broken_line_map :: "hkey \<rightharpoonup> nat"
  reasons :: "hkey \<rightharpoonup> reason"
  orphan_result_ids :: "hkey list"
  cascade_error_ids :: "hkey list"

definition scan0 :: scan where
  "scan0 = \<lparr>broken_assistant_ids = [], broken_tool_call_ids = [],
            broken_line_map = Map.empty, reasons = Map.empty,
            orphan_result_ids = [], cascade_error_ids = []\<rparr>"

text \<open>\<^verbatim>\<open>is_error_assistant(obj) and has_partial_json(obj)\<close>.\<close>

definition error_with_partial :: "json \<Rightarrow> error + bool" where
  "error_with_partial obj =
     bindE (is_error_assistant obj) (\<lambda>b. if b then has_partial_json obj else Inr False)"

definition pass1_body :: "scan \<Rightarrow> entry \<Rightarrow> error + scan" where
  "pass1_body s e =
     (case e of (lineno, obj, raw) \<Rightarrow>
        if obj = JNull then Inr s
        else bindE (get_role obj) (\<lambda>role.
          if role \<noteq> JStr ''assistant'' then Inr s
          else bindE (error_with_partial obj) (\<lambda>broken.
            if \<not> broken then Inr s
            else bindE (get_id obj) (\<lambda>oid.
              bindE (hash_key oid) (\<lambda>k.
              bindE (extract_tool_call_ids obj) (\<lambda>ids.
              bindE (message_field obj ''errorMessage'' (JStr [])) (\<lambda>em.
              bindE (slice80 em) (\<lambda>err.
                Inr (s\<lparr>broken_assistant_ids := List.insert k (broken_assistant_ids s),
                       broken_line_map := (broken_line_map s)(k \<mapsto> lineno),
                       broken_tool_call_ids := List.union (broken_tool_call_ids s) ids,
                       reasons := (reasons s)(k \<mapsto> ErrorPartialJson err)\<rparr>))))))))) "

definition pass2_body :: "scan \<Rightarrow> entry \<Rightarrow> error + scan" where
  "pass2_body s e =
     (case e of (lineno, obj, raw) \<Rightarrow>
        if obj = JNull then Inr s
        else bindE (get_tool_result_id obj) (\<lambda>tr_id.
          if \<not> truthy tr_id then Inr s
          else bindE (hash_key tr_id) (\<lambda>t.
            if t \<notin> set (broken_tool_call_ids s) then Inr s
            else bindE (get_id obj) (\<lambda>oid.
              bindE (hash_key oid) (\<lambda>k.
                Inr (s\<lparr>orphan_result_ids := List.insert k (orphan_result_ids s),
                       broken_line_map := (broken_line_map s)(k \<mapsto> lineno),
                       reasons := (reasons s)(k \<mapsto> OrphanToolResult tr_id)\<rparr>))))))"

text \<open>The inner loop of pass 3: the first member, in iteration order, that the error
  message contains; a member that cannot be tested raises before any later one is
  tried.\<close>

fun first_match :: "hkey list \<Rightarrow> json \<Rightarrow> error + hkey option" where
  "first_match [] err = Inr None"
| "first_match (tc_id # ks) err =
     bindE (key_in tc_id err) (\<lambda>b. if b then Inr (Some tc_id) else first_match ks err)"

text \<open>Python iterates a set in an order fixed by the hashes of its members;
  \<open>set_iter\<close> stands for that order.\<close>

definition pass3_body :: "(hkey list \<Rightarrow> hkey list) \<Rightarrow> scan \<Rightarrow> entry \<Rightarrow> error + scan" where
  "pass3_body set_iter s e =
     (case e of (lineno, obj, raw) \<Rightarrow>
        if obj = JNull then Inr s
        else bindE (is_empty_error_assistant obj) (\<lambda>empty_error.
          if \<not> empty_error then Inr s
          else bindE (message_field obj ''errorMessage'' (JStr [])) (\<lambda>err.
            bindE (first_match (set_iter (broken_tool_call_ids s)) err) (\<lambda>hit.
              case hit of
                None \<Rightarrow> Inr s
              | Some tc_id \<Rightarrow>
                  bindE (get_id obj) (\<lambda>oid.
                  bindE (hash_key oid) (\<lambda>k.
                    Inr (s\<lparr>cascade_error_ids := List.insert k (cascade_error_ids s),
                           broken_line_map := (broken_line_map s)(k \<mapsto> lineno),
                           reasons := (reasons s)(k \<mapsto> Cascade400 tc_id)\<rparr>)))))))"

definition all_ids_body :: "hkey list \<Rightarrow> entry \<Rightarrow> error + hkey list" where
  "all_ids_body ids e =
     (case e of (lineno, obj, raw) \<Rightarrow>
        if obj = JNull then Inr ids
        else bindE (get_role obj) (\<lambda>role.
          if role \<noteq> JStr ''assistant'' then Inr ids
          else bindE (is_error_assistant obj) (\<lambda>err.
            if err then Inr ids
            else bindE (extract_tool_call_ids obj) (\<lambda>new. Inr (List.union ids new)))))"

definition extract_all_tool_call_ids :: "entry list \<Rightarrow> error + hkey list" where
  "extract_all_tool_call_ids entries = for_each all_ids_body [] entries"

definition id_to_parent_body :: "(hkey \<rightharpoonup> json) \<Rightarrow> entry \<Rightarrow> error + (hkey \<rightharpoonup> json)" where
  "id_to_parent_body m e =
     (case e of (lineno, obj, raw) \<Rightarrow>
        if obj = JNull then Inr m
        else bindE (get_id obj) (\<lambda>oid.
          bindE (hash_key oid) (\<lambda>k.
          bindE (get_parent_id obj) (\<lambda>pid. Inr (m(k \<mapsto> pid))))))"

text \<open>\<^verbatim>\<open>id_to_parent.get(k, "")\<close>.\<close>

definition parent_of :: "(hkey \<rightharpoonup> json) \<Rightarrow> hkey \<Rightarrow> json" where
  "parent_of id_to_parent k = (case id_to_parent k of None \<Rightarrow> JStr [] | Some v \<Rightarrow> v)"

text \<open>The \<^verbatim>\<open>while ancestor in remove_ids\<close> loop with its cycle guard. Each turn
  adds a member of \<open>remove_ids\<close> to \<open>seen\<close>, which bounds the number of turns.\<close>

function remap_walk :: "(hkey \<rightharpoonup> json) \<Rightarrow> hkey list \<Rightarrow> hkey set \<Rightarrow> json \<Rightarrow> error + json" where
  "remap_walk id_to_parent remove_ids seen ancestor =
     (case hash_key ancestor of
        Inl e \<Rightarrow> Inl e
      | Inr k \<Rightarrow>
          if k \<in> set remove_ids then
            (if k \<in> seen then Inr ancestor
             else remap_walk id_to_parent remove_ids (insert k seen) (parent_of id_to_parent k))
          else Inr ancestor)"
  by pat_completeness auto
termination
  by (relation "measure (\<lambda>(id_to_parent, remove_ids, seen, ancestor). card (set remove_ids - seen))")
     (auto intro!: card_mono psubset_card_mono diff_Suc_less simp: card_gt_0_iff card_Diff_insert)

text \<open>The same loop with nothing said about its termination: \<open>None\<close> is a walk that
  never ends.\<close>

partial_function (option) walk_loop ::
  "(hkey \<rightharpoonup> json) \<Rightarrow> hkey list \<Rightarrow> hkey set \<Rightarrow> json \<Rightarrow> (error + json) option" where
  "walk_loop id_to_parent remove_ids seen ancestor =
     (case hash_key ancestor of
        Inl e \<Rightarrow> Some (Inl e)
      | Inr k \<Rightarrow>
          if k \<in> set remove_ids then
            (if k \<in> seen then Some (Inr ancestor)
             else walk_loop id_to_parent remove_ids (insert k seen) (parent_of id_to_parent k))
          else Some (Inr ancestor))"

text \<open>The body of \<^verbatim>\<open>for rid in remove_ids\<close>. The loop is run in the order of the list:
  every turn writes its own key and can only raise \<open>TypeError\<close>, so the order of
  the set does not show in the result.\<close>

definition parent_fix_body ::
  "(hkey \<rightharpoonup> json) \<Rightarrow> hkey list \<Rightarrow> (hkey \<rightharpoonup> json) \<Rightarrow> hkey \<Rightarrow> error + (hkey \<rightharpoonup> json)" where
  "parent_fix_body id_to_parent remove_ids fixes rid =
     bindE (remap_walk id_to_parent remove_ids {rid} (parent_of id_to_parent rid))
       (\<lambda>ancestor. Inr (fixes(rid \<mapsto> ancestor)))"

text \<open>The report of a corrupted session; \<open>Clean n\<close> is the short report
  \<^verbatim>\<open>{"lines": n, "corrupted": False}\<close>.\<close>

record findings =
  lines :: nat
  broken_assistants :: "hkey list"
  orphan_results :: "hkey list"
  cascade_errors :: "hkey list"
  unparseable_lines :: "nat list"
  remove_ids :: "hkey list"
  remove_count :: nat
  parent_fixes :: "hkey \<rightharpoonup> json"
  line_map :: "hkey \<rightharpoonup> nat"
  poisoned_ids :: "hkey list"
  reason_of :: "hkey \<rightharpoonup> reason"

datatype report = Clean nat | Corrupted findings

fun corrupted :: "report \<Rightarrow> bool" where
  "corrupted (Clean n) = False"
| "corrupted (Corrupted f) = True"

fun report_lines :: "report \<Rightarrow> nat" where
  "report_lines (Clean n) = n"
| "report_lines (Corrupted f) = lines f"

definition unparseable_of :: "entry list \<Rightarrow> nat list" where
  "unparseable_of entries = map fst (filter (\<lambda>(lineno, obj, raw). obj = JNull) entries)"

definition analyze_entries :: "(hkey list \<Rightarrow> hkey list) \<Rightarrow> entry list \<Rightarrow> error + report" where
  "analyze_entries set_iter entries =
     (if entries = [] then Inr (Clean 0)
      else
        bindE (for_each pass1_body scan0 entries) (\<lambda>s1.
        bindE (for_each pass2_body s1 entries) (\<lambda>s2.
        bindE (for_each (pass3_body set_iter) s2 entries) (\<lambda>s3.
        bindE (extract_all_tool_call_ids entries) (\<lambda>all_valid_tool_call_ids.
          let rm = remdups (broken_assistant_ids s3 @ orphan_result_ids s3 @ cascade_error_ids s3)
          in
          if rm = [] \<and> unparseable_of entries = [] then Inr (Clean (length entries))
          else
            bindE (for_each id_to_parent_body Map.empty entries) (\<lambda>id_to_parent.
            bindE (for_each (parent_fix_body id_to_parent rm) Map.empty rm) (\<lambda>fixes.
            bindE (py_sorted (broken_assistant_ids s3)) (\<lambda>ba.
            bindE (py_sorted (orphan_result_ids s3)) (\<lambda>orr.
            bindE (py_sorted (cascade_error_ids s3)) (\<lambda>ce.
            bindE (py_sorted (broken_tool_call_ids s3)) (\<lambda>btc.
              Inr (Corrupted
                \<lparr>lines = length entries, broken_assistants = ba, orphan_results = orr,
                 cascade_errors = ce, unparseable_lines = unparseable_of entries,
                 remove_ids = rm, remove_count = length rm, parent_fixes = fixes,
                 line_map = broken_line_map s3, poisoned_ids = btc,
                 reason_of = reasons s3\<rparr>))))))))))))"

definition analyze_session ::
  "(hkey list \<Rightarrow> hkey list) \<Rightarrow> (string \<Rightarrow> json option) \<Rightarrow> string \<Rightarrow> error + report" where
  "analyze_session set_iter loads file = analyze_entries set_iter (parse_jsonl loads file)"

section \<open>\<^verbatim>\<open>fix_session\<close>\<close>

text \<open>\<^verbatim>\<open>obj["parentId"] = v\<close>.\<close>

fun set_parent_id :: "json \<Rightarrow> json \<Rightarrow> error + json" where
  "set_parent_id (JObj kvs) v = Inr (JObj (AList.update ''parentId'' v kvs))"
| "set_parent_id _ v = Inl TypeError"

record applied =
  output_lines :: "string list"
  removed :: nat
  fixed :: nat

definition apply_body ::
  "(json \<Rightarrow> string) \<Rightarrow> hkey list \<Rightarrow> (hkey \<rightharpoonup> json) \<Rightarrow> applied \<Rightarrow> entry \<Rightarrow> error + applied" where
  "apply_body dumps rm fixes st e =
     (case e of (lineno, obj, raw) \<Rightarrow>
        if obj = JNull then Inr (st\<lparr>output_lines := output_lines st @ [raw]\<rparr>)
        else bindE (get_id obj) (\<lambda>oid.
          bindE (hash_key oid) (\<lambda>k.
            if k \<in> set rm then Inr (st\<lparr>removed := removed st + 1\<rparr>)
            else bindE (get_parent_id obj) (\<lambda>pid.
              bindE (hash_key pid) (\<lambda>pk.
                case fixes pk of
                  Some v \<Rightarrow>
                    bindE (set_parent_id obj v) (\<lambda>obj'.
                      Inr (st\<lparr>fixed := fixed st + 1, output_lines := output_lines st @ [dumps obj']\<rparr>))
                | None \<Rightarrow> Inr (st\<lparr>output_lines := output_lines st @ [raw]\<rparr>))))))"

definition write_lines :: "string list \<Rightarrow> string" where
  "write_lines out = join_nl out @ [newline]"

text \<open>What \<^verbatim>\<open>fix_session\<close> returns besides the file it leaves behind.\<close>

datatype summary =
    NothingToDo
  | DryRun
  | Repaired (removed_lines: nat) (fixed_parents: nat) (lines_after: nat) (verified: bool)

text \<open>\<^verbatim>\<open>', '.join(report['broken_tool_call_ids'])\<close> in the dry-run summary: every
  item has to be a string.\<close>

fun joinable :: "hkey list \<Rightarrow> bool" where
  "joinable [] = True"
| "joinable (KStr s # ks) = joinable ks"
| "joinable (k # ks) = False"

text \<open>The result is the content of the file afterwards and the summary or the
  exception. An exception in the loop leaves the file as it was. The write opens the
  file with mode \<^verbatim>\<open>"w"\<close>, which empties it, and then encodes the text: when the text
  cannot be encoded, \<^verbatim>\<open>f.write\<close> raises \<^verbatim>\<open>UnicodeEncodeError\<close> with nothing written,
  and the file stays empty. The verification pass runs on the file already written.\<close>

definition fix_session ::
  "(hkey list \<Rightarrow> hkey list) \<Rightarrow> (string \<Rightarrow> json option) \<Rightarrow> (json \<Rightarrow> string) \<Rightarrow>
     (string \<Rightarrow> bool) \<Rightarrow> string \<Rightarrow> report \<Rightarrow> bool \<Rightarrow> string \<times> (error + summary)" where
  "fix_session set_iter loads dumps encodable file rep dry_run =
     (case rep of
        Clean n \<Rightarrow> (file, Inr NothingToDo)
      | Corrupted f \<Rightarrow>
          if dry_run then
            (file, if joinable (poisoned_ids f) then Inr DryRun else Inl TypeError)
          else
            (case for_each (apply_body dumps (remove_ids f) (parent_fixes f))
                    \<lparr>output_lines = [], removed = 0, fixed = 0\<rparr> (parse_jsonl loads file) of
               Inl e \<Rightarrow> (file, Inl e)
             | Inr st \<Rightarrow>
                 if \<not> encodable (write_lines (output_lines st)) then ([], Inl UnicodeEncodeError)
                 else
                   (let file' = write_lines (output_lines st) in
                    (file',
                     bindE (analyze_session set_iter loads file') (\<lambda>verify_report.
                       Inr (Repaired (removed st) (fixed st) (length (output_lines st))
                              (\<not> corrupted verify_report)))))))"

text \<open>One turn of the loop of \<^verbatim>\<open>main\<close> over the session files: analyse, and repair
  when the report says corrupted; an exception is printed and the file skipped.\<close>

definition repair_file ::
  "(hkey list \<Rightarrow> hkey list) \<Rightarrow> (string \<Rightarrow> json option) \<Rightarrow> (json \<Rightarrow> string) \<Rightarrow>
     (string \<Rightarrow> bool) \<Rightarrow> bool \<Rightarrow> string \<Rightarrow> string \<times> (error + summary)" where
  "repair_file set_iter loads dumps encodable do_fix file =
     (case analyze_session set_iter loads file of
        Inl e \<Rightarrow> (file, Inl e)
      | Inr rep \<Rightarrow>
          if corrupted rep then fix_session set_iter loads dumps encodable file rep (\<not> do_fix)
          else (file, Inr NothingToDo))"

section \<open>A cyclic parent map\<close>

text \<open>A parent map with the cycle \<open>A \<rightarrow> B \<rightarrow> A\<close>.\<close>

definition cyclic_parents :: "hkey \<rightharpoonup> json" where
  "cyclic_parents = [KStr ''A'' \<mapsto> JStr ''B'', KStr ''B'' \<mapsto> JStr ''A'']"

section \<open>The corruption classes as the passes test them\<close>

text \<open>Class 1, the test of pass 1: an assistant record with \<^verbatim>\<open>stopReason == "error"\<close>
  and a tool-call block that has a \<^verbatim>\<open>partialJson\<close> field.\<close>

definition is_broken_assistant :: "json \<Rightarrow> error + bool" where
  "is_broken_assistant obj =
     bindE (get_role obj) (\<lambda>role.
       if role \<noteq> JStr ''assistant'' then Inr False else error_with_partial obj)"

text \<open>The key under which a record is removed: its \<^verbatim>\<open>id\<close>, hashed.\<close>

definition id_key :: "json \<Rightarrow> error + hkey" where
  "id_key obj = bindE (get_id obj) hash_key"

definition parent_key :: "json \<Rightarrow> error + hkey" where
  "parent_key obj = bindE (get_parent_id obj) hash_key"

section \<open>What the applier does with one entry\<close>

text \<open>A decoded record is dropped when its id is in the removal set.\<close>

definition in_removal_set :: "hkey list \<Rightarrow> entry \<Rightarrow> bool" where
  "in_removal_set rm e =
     (case e of (lineno, obj, raw) \<Rightarrow>
        obj \<noteq> JNull \<and> (case id_key obj of Inr k \<Rightarrow> k \<in> set rm | Inl err \<Rightarrow> False))"

text \<open>A decoded record is rewritten when its parent id is a key of \<^verbatim>\<open>parent_fixes\<close>.\<close>

definition is_rewritten :: "(hkey \<rightharpoonup> json) \<Rightarrow> json \<Rightarrow> bool" where
  "is_rewritten fixes obj =
     (obj \<noteq> JNull \<and> (case parent_key obj of Inr pk \<Rightarrow> fixes pk \<noteq> None | Inl err \<Rightarrow> False))"

text \<open>The record after the repair: with the replacement parent when it is rewritten,
  as it was otherwise.\<close>

definition repaired_obj :: "(hkey \<rightharpoonup> json) \<Rightarrow> json \<Rightarrow> json" where
  "repaired_obj fixes obj =
     (case parent_key obj of
        Inr pk \<Rightarrow>
          (case fixes pk of
             Some v \<Rightarrow> (case set_parent_id obj v of Inr obj' \<Rightarrow> obj' | Inl err \<Rightarrow> obj)
           | None \<Rightarrow> obj)
      | Inl err \<Rightarrow> obj)"

text \<open>The line written for an entry that is kept.\<close>

definition written_line :: "(json \<Rightarrow> string) \<Rightarrow> (hkey \<rightharpoonup> json) \<Rightarrow> entry \<Rightarrow> string" where
  "written_line dumps fixes e =
     (case e of (lineno, obj, raw) \<Rightarrow>
        if is_rewritten fixes obj then dumps (repaired_obj fixes obj) else raw)"

text \<open>The entries that stay, in order.\<close>

definition kept_entries :: "hkey list \<Rightarrow> entry list \<Rightarrow> entry list" where
  "kept_entries rm es = filter (\<lambda>e. \<not> in_removal_set rm e) es"

text \<open>The text that the applier hands to \<^verbatim>\<open>f.write\<close>: the lines of the kept entries,
  each with its terminator.\<close>

definition corrected_text ::
  "(json \<Rightarrow> string) \<Rightarrow> hkey list \<Rightarrow> (hkey \<rightharpoonup> json) \<Rightarrow> entry list \<Rightarrow> string" where
  "corrected_text dumps rm fixes es = write_lines (map (written_line dumps fixes) (kept_entries rm es))"

section \<open>What is assumed of \<^verbatim>\<open>json.dumps\<close> and \<^verbatim>\<open>json.loads\<close>\<close>

text \<open>\<^verbatim>\<open>json.dumps\<close> writes a value on one non-empty line, and \<^verbatim>\<open>json.loads\<close> reads
  it back.\<close>

definition codec_ok :: "(string \<Rightarrow> json option) \<Rightarrow> (json \<Rightarrow> string) \<Rightarrow> json \<Rightarrow> bool" where
  "codec_ok loads dumps v =
     (loads (dumps v) = Some v \<and> dumps v \<noteq> [] \<and> newline \<notin> set (dumps v))"

text \<open>This holds of every record that a repair with the given removal set and parent
  fixes serialises again.\<close>

definition rewrites_ok ::
  "(string \<Rightarrow> json option) \<Rightarrow> (json \<Rightarrow> string) \<Rightarrow> hkey list \<Rightarrow> (hkey \<rightharpoonup> json) \<Rightarrow>
     entry list \<Rightarrow> bool" where
  "rewrites_ok loads dumps rm fixes es =
     (\<forall>e \<in> set (kept_entries rm es).
        is_rewritten fixes (fst (snd e)) \<longrightarrow> codec_ok loads dumps (repaired_obj fixes (fst (snd e))))"

text \<open>The same for the repair that \<^const>\<open>repair_file\<close> runs on a file.\<close>

definition codec_fits ::
  "(hkey list \<Rightarrow> hkey list) \<Rightarrow> (string \<Rightarrow> json option) \<Rightarrow> (json \<Rightarrow> string) \<Rightarrow> string \<Rightarrow> bool" where
  "codec_fits set_iter loads dumps file =
     (case analyze_session set_iter loads file of
        Inr (Corrupted f) \<Rightarrow>
          rewrites_ok loads dumps (remove_ids f) (parent_fixes f) (parse_jsonl loads file)
      | _ \<Rightarrow> True)"

text \<open>An iteration order of sets visits the members and nothing else.\<close>

definition iterates_sets :: "(hkey list \<Rightarrow> hkey list) \<Rightarrow> bool" where
  "iterates_sets set_iter = (\<forall>ks. set (set_iter ks) = set ks)"

text \<open>A decoded record that no pass classifies when no tool-call id is poisoned, and
  on which no pass raises.\<close>

definition settled :: "json \<Rightarrow> bool" where
  "settled obj =
     (is_broken_assistant obj = Inr False
      \<and> (\<exists>tr. get_tool_result_id obj = Inr tr \<and> (\<not> truthy tr \<or> (\<exists>t. hash_key tr = Inr t)))
      \<and> (\<exists>b. is_empty_error_assistant obj = Inr b)
      \<and> (\<exists>r. all_ids_body [] (0, obj, []) = Inr r)
      \<and> (\<exists>k. id_key obj = Inr k))"

text \<open>The decoded records and lines of the repaired file, in order.\<close>

definition repaired_entries ::
  "(json \<Rightarrow> string) \<Rightarrow> hkey list \<Rightarrow> (hkey \<rightharpoonup> json) \<Rightarrow> entry list \<Rightarrow> (json \<times> string) list" where
  "repaired_entries dumps rm fixes es =
     map (\<lambda>e. (repaired_obj fixes (fst (snd e)), written_line dumps fixes e)) (kept_entries rm es)"

definition applied0 :: applied where
  "applied0 = \<lparr>output_lines = [], removed = 0, fixed = 0\<rparr>"

section \<open>The UTF-8 codec on the examples\<close>

text \<open>Python's UTF-8 codec encodes every code point but the surrogates \<^verbatim>\<open>U+D800\<close> to
  \<^verbatim>\<open>U+DFFF\<close>. In the examples a string holds a code point beyond ASCII as the bytes
  of its UTF-8 form, a surrogate as the three bytes that the same scheme gives it:
  \<^verbatim>\<open>0xED\<close>, a byte from \<^verbatim>\<open>0xA0\<close> to \<^verbatim>\<open>0xBF\<close>, and one more. A text can be encoded
  when it has no such byte pair.\<close>

fun utf8_encodable :: "string \<Rightarrow> bool" where
  "utf8_encodable (a # b # cs) =
     (\<not> (a = CHR 0xED \<and> (0xA0 :: nat) \<le> of_char b \<and> of_char b \<le> (0xBF :: nat))
      \<and> utf8_encodable (b # cs))"
| "utf8_encodable cs = True"

section \<open>A transcript with a broken assistant, its orphan result and a survivor\<close>

text \<open>The scenario of the specification: the assistant record \<open>A\<close> was cut off inside
  the tool call \<open>T1\<close>, the record \<open>R1\<close> is the synthetic result for \<open>T1\<close>, and the
  record \<open>B\<close> hangs below \<open>R1\<close>. The decoder and the encoder are given on the lines
  of this file only.\<close>

definition rec_A :: json where
  "rec_A = JObj [(''id'', JStr ''A''), (''parentId'', JStr ''''),
     (''message'', JObj [(''role'', JStr ''assistant''), (''stopReason'', JStr ''error''),
        (''content'', JArr [JObj [(''type'', JStr ''toolCall''), (''id'', JStr ''T1''),
           (''partialJson'', JStr ''{'')]])])]"

definition rec_R1 :: json where
  "rec_R1 = JObj [(''id'', JStr ''R1''), (''parentId'', JStr ''A''),
     (''message'', JObj [(''role'', JStr ''toolResult''), (''toolCallId'', JStr ''T1'')])]"

definition rec_B :: json where
  "rec_B = JObj [(''id'', JStr ''B''), (''parentId'', JStr ''R1''),
     (''message'', JObj [(''role'', JStr ''user'')])]"

definition rec_B_fixed :: json where
  "rec_B_fixed = JObj [(''id'', JStr ''B''), (''parentId'', JStr ''''),
     (''message'', JObj [(''role'', JStr ''user'')])]"

definition line_A :: string where
  \<open>line_A = ''{"id":"A","parentId":"","message":{"role":"assistant","stopReason":"error","content":[{"type":"toolCall","id":"T1","partialJson":"{"}]}}''\<close>

definition line_R1 :: string where
  \<open>line_R1 = ''{"id":"R1","parentId":"A","message":{"role":"toolResult","toolCallId":"T1"}}''\<close>

definition line_B :: string where
  \<open>line_B = ''{"id":"B","parentId":"R1","message":{"role":"user"}}''\<close>

definition line_B_fixed :: string where
  \<open>line_B_fixed = ''{"id": "B", "parentId": "", "message": {"role": "user"}}''\<close>

definition line_bad :: string where
  \<open>line_bad = ''{"id":"Z","parentId"''\<close>

definition demo_loads :: "string \<Rightarrow> json option" where
  "demo_loads s =
     (if s = line_A then Some rec_A
      else if s = line_R1 then Some rec_R1
      else if s = line_B then Some rec_B
      else if s = line_B_fixed then Some rec_B_fixed
      else None)"

definition demo_dumps :: "json \<Rightarrow> string" where
  "demo_dumps v = (if v = rec_B_fixed then line_B_fixed else ''{}'')"

definition demo_file :: string where
  "demo_file = line_A @ [newline] @ line_R1 @ [newline] @ line_B @ [newline]"

text \<open>The same transcript with a blank line and a line that does not decode.\<close>

definition demo_file_bad :: string where
  "demo_file_bad =
     line_A @ [newline] @ line_R1 @ [newline, newline] @ line_bad @ [newline] @ line_B @ [newline]"

definition in_order :: "hkey list \<Rightarrow> hkey list" where
  "in_order ks = ks"

section \<open>The same transcript between records that the repair leaves alone\<close>







section \<open>A survivor whose text holds a lone surrogate\<close>









section \<open>A transcript in which a clean record shares the id of a broken one\<close>

definition rec_twin :: json where
  "rec_twin = JObj [(''id'', JStr ''A''), (''parentId'', JStr ''''),
     (''message'', JObj [(''role'', JStr ''user'')])]"

definition rec_S :: json where
  "rec_S = JObj [(''id'', JStr ''S''), (''parentId'', JStr ''A''),
     (''message'', JObj [(''role'', JStr ''user'')])]"

definition rec_S_fixed :: json where
  "rec_S_fixed = JObj [(''id'', JStr ''S''), (''parentId'', JStr ''''),
     (''message'', JObj [(''role'', JStr ''user'')])]"

definition line_twin :: string where
  \<open>line_twin = ''{"id":"A","parentId":"","message":{"role":"user"}}''\<close>

definition line_S :: string where
  \<open>line_S = ''{"id":"S","parentId":"A","message":{"role":"user"}}''\<close>

definition line_S_fixed :: string where
  \<open>line_S_fixed = ''{"id": "S", "parentId": "", "message": {"role": "user"}}''\<close>

definition twin_loads :: "string \<Rightarrow> json option" where
  "twin_loads s =
     (if s = line_A then Some rec_A
      else if s = line_twin then Some rec_twin
      else if s = line_S then Some rec_S
      else if s = line_S_fixed then Some rec_S_fixed
      else None)"

definition twin_dumps :: "json \<Rightarrow> string" where
  "twin_dumps v = (if v = rec_S_fixed then line_S_fixed else ''{}'')"

definition twin_file :: string where
  "twin_file = line_A @ [newline] @ line_twin @ [newline] @ line_S @ [newline]"

section \<open>A user record that answers a poisoned tool call\<close>

definition rec_U :: json where
  "rec_U = JObj [(''id'', JStr ''U''), (''parentId'', JStr ''A''),
     (''message'', JObj [(''role'', JStr ''user''),
        (''content'', JArr [JObj [(''type'', JStr ''tool_result''),
           (''tool_use_id'', JStr ''T1'')]])])]"

definition rec_U_fixed :: json where
  "rec_U_fixed = JObj [(''id'', JStr ''U''), (''parentId'', JStr ''''),
     (''message'', JObj [(''role'', JStr ''user''),
        (''content'', JArr [JObj [(''type'', JStr ''tool_result''),
           (''tool_use_id'', JStr ''T1'')]])])]"

definition line_U :: string where
  \<open>line_U = ''{"id":"U","parentId":"A","message":{"role":"user","content":[{"type":"tool_result","tool_use_id":"T1"}]}}''\<close>

definition line_U_fixed :: string where
  \<open>line_U_fixed = ''{"id": "U", "parentId": "", "message": {"role": "user", "content": [{"type": "tool_result", "tool_use_id": "T1"}]}}''\<close>

definition orphan_loads :: "string \<Rightarrow> json option" where
  "orphan_loads s =
     (if s = line_A then Some rec_A
      else if s = line_U then Some rec_U
      else if s = line_U_fixed then Some rec_U_fixed
      else None)"

definition orphan_dumps :: "json \<Rightarrow> string" where
  "orphan_dumps v = (if v = rec_U_fixed then line_U_fixed else ''{}'')"

definition orphan_file :: string where
  "orphan_file = line_A @ [newline] @ line_U @ [newline]"

section \<open>Empty assistant records that name a poisoned tool call\<close>

text \<open>The records claim C7 speaks of: a decoded assistant record with empty content
  whose error message contains a poisoned tool-call id.\<close>

definition empty_assistant_mentioning :: "hkey list \<Rightarrow> json \<Rightarrow> bool" where
  "empty_assistant_mentioning poisoned obj =
     (obj \<noteq> JNull \<and> get_role obj = Inr (JStr ''assistant'')
      \<and> (message_field obj ''content'' (JArr []) = Inr (JArr [])
         \<or> message_field obj ''content'' (JArr []) = Inr JNull)
      \<and> (\<exists>t \<in> set poisoned.
            case message_field obj ''errorMessage'' (JStr []) of
              Inr err \<Rightarrow> key_in t err = Inr True
            | Inl x \<Rightarrow> False))"

text \<open>The test that \<^const>\<open>is_empty_error_assistant\<close> adds: the error message contains
  the text \<^verbatim>\<open>tool_use_id\<close>.\<close>

definition names_tool_use_id :: "json \<Rightarrow> bool" where
  "names_tool_use_id obj =
     (case message_field obj ''errorMessage'' (JStr []) of
        Inr err \<Rightarrow> str_in ''tool_use_id'' err = Inr True
      | Inl x \<Rightarrow> False)"

definition listed_cascade :: "findings \<Rightarrow> entry \<Rightarrow> bool" where
  "listed_cascade f e =
     (in_removal_set (remove_ids f) e
      \<and> (case id_key (fst (snd e)) of Inr k \<Rightarrow> k \<in> set (cascade_errors f) | Inl x \<Rightarrow> False))"

text \<open>Claim C7 as it is worded: every such record of a corrupted session is a cascade
  error and in the removal set.\<close>

definition cascade_claim ::
  "(hkey list \<Rightarrow> hkey list) \<Rightarrow> (string \<Rightarrow> json option) \<Rightarrow> string \<Rightarrow> bool" where
  "cascade_claim set_iter loads file =
     (case analyze_session set_iter loads file of
        Inr (Corrupted f) \<Rightarrow>
          list_all (\<lambda>e. \<not> empty_assistant_mentioning (poisoned_ids f) (fst (snd e))
                        \<or> listed_cascade f e)
            (parse_jsonl loads file)
      | _ \<Rightarrow> True)"

definition rec_E :: json where
  "rec_E = JObj [(''id'', JStr ''E''), (''parentId'', JStr ''A''),
     (''message'', JObj [(''role'', JStr ''assistant''), (''content'', JArr []),
        (''errorMessage'', JStr ''T1 failed'')])]"

definition rec_E_fixed :: json where
  "rec_E_fixed = JObj [(''id'', JStr ''E''), (''parentId'', JStr ''''),
     (''message'', JObj [(''role'', JStr ''assistant''), (''content'', JArr []),
        (''errorMessage'', JStr ''T1 failed'')])]"

definition rec_G :: json where
  "rec_G = JObj [(''id'', JStr ''G''), (''parentId'', JStr ''E''),
     (''message'', JObj [(''role'', JStr ''assistant''), (''content'', JArr []),
        (''errorMessage'', JStr ''unexpected tool_use_id T1'')])]"

definition line_E :: string where
  \<open>line_E = ''{"id":"E","parentId":"A","message":{"role":"assistant","content":[],"errorMessage":"T1 failed"}}''\<close>

definition line_E_fixed :: string where
  \<open>line_E_fixed = ''{"id": "E", "parentId": "", "message": {"role": "assistant", "content": [], "errorMessage": "T1 failed"}}''\<close>

definition line_G :: string where
  \<open>line_G = ''{"id":"G","parentId":"E","message":{"role":"assistant","content":[],"errorMessage":"unexpected tool_use_id T1"}}''\<close>

definition cascade_loads :: "string \<Rightarrow> json option" where
  "cascade_loads s =
     (if s = line_A then Some rec_A
      else if s = line_E then Some rec_E
      else if s = line_G then Some rec_G
      else if s = line_E_fixed then Some rec_E_fixed
      else None)"

definition cascade_file :: string where
  "cascade_file = line_A @ [newline] @ line_E @ [newline] @ line_G @ [newline]"

section \<open>The nearest surviving ancestor\<close>

text \<open>The parent links that leave a removed record, between the keys of the parent
  map.\<close>

definition removed_parent_rel :: "(hkey \<rightharpoonup> json) \<Rightarrow> hkey list \<Rightarrow> (hkey \<times> hkey) set" where
  "removed_parent_rel id_to_parent rm =
     {(k, k'). k \<in> set rm \<and> hash_key (parent_of id_to_parent k) = Inr k'}"

text \<open>The nearest ancestor outside the removal set, in the words of the
  specification: start at a parent reference and skip removed ancestors, one parent
  link at a time, until a reference that is not removed.\<close>

inductive nearest_surviving :: "(hkey \<rightharpoonup> json) \<Rightarrow> hkey list \<Rightarrow> json \<Rightarrow> json \<Rightarrow> bool"
  for id_to_parent rm where
    here: "hash_key a = Inr k \<Longrightarrow> k \<notin> set rm \<Longrightarrow> nearest_surviving id_to_parent rm a a"
  | skip: "hash_key a = Inr k \<Longrightarrow> k \<in> set rm \<Longrightarrow>
           nearest_surviving id_to_parent rm (parent_of id_to_parent k) r \<Longrightarrow>
           nearest_surviving id_to_parent rm a r"

section \<open>Dangling parent references\<close>

text \<open>The parent id of a record is empty or the id of a decoded record of the
  transcript.\<close>

definition parent_present :: "entry list \<Rightarrow> json \<Rightarrow> bool" where
  "parent_present es obj =
     (case get_parent_id obj of
        Inr p \<Rightarrow>
          p = JStr [] \<or>
          (case hash_key p of
             Inr k \<Rightarrow> list_ex (\<lambda>e. fst (snd e) \<noteq> JNull \<and> id_key (fst (snd e)) = Inr k) es
           | Inl x \<Rightarrow> False)
      | Inl x \<Rightarrow> False)"

definition no_dangling :: "entry list \<Rightarrow> bool" where
  "no_dangling es = list_all (\<lambda>e. fst (snd e) = JNull \<or> parent_present es (fst (snd e))) es"

text \<open>A transcript with a record below a missing parent and with two broken
  assistants that are each other's parent.\<close>

definition rec_X :: json where
  "rec_X = JObj [(''id'', JStr ''X''), (''parentId'', JStr ''ghost''),
     (''message'', JObj [(''role'', JStr ''user'')])]"

definition rec_LA :: json where
  "rec_LA = JObj [(''id'', JStr ''A''), (''parentId'', JStr ''B''),
     (''message'', JObj [(''role'', JStr ''assistant''), (''stopReason'', JStr ''error''),
        (''content'', JArr [JObj [(''type'', JStr ''toolCall''), (''id'', JStr ''T1''),
           (''partialJson'', JStr ''{'')]])])]"

definition rec_LB :: json where
  "rec_LB = JObj [(''id'', JStr ''B''), (''parentId'', JStr ''A''),
     (''message'', JObj [(''role'', JStr ''assistant''), (''stopReason'', JStr ''error''),
        (''content'', JArr [JObj [(''type'', JStr ''toolCall''), (''id'', JStr ''T2''),
           (''partialJson'', JStr ''{'')]])])]"

definition rec_C :: json where
  "rec_C = JObj [(''id'', JStr ''C''), (''parentId'', JStr ''A''),
     (''message'', JObj [(''role'', JStr ''user'')])]"

definition line_X :: string where
  \<open>line_X = ''{"id":"X","parentId":"ghost","message":{"role":"user"}}''\<close>

definition line_LA :: string where
  \<open>line_LA = ''{"id":"A","parentId":"B","message":{"role":"assistant","stopReason":"error","content":[{"type":"toolCall","id":"T1","partialJson":"{"}]}}''\<close>

definition line_LB :: string where
  \<open>line_LB = ''{"id":"B","parentId":"A","message":{"role":"assistant","stopReason":"error","content":[{"type":"toolCall","id":"T2","partialJson":"{"}]}}''\<close>

definition line_C :: string where
  \<open>line_C = ''{"id":"C","parentId":"A","message":{"role":"user"}}''\<close>

definition line_C_dumped :: string where
  \<open>line_C_dumped = ''{"id": "C", "parentId": "A", "message": {"role": "user"}}''\<close>

definition loop_loads :: "string \<Rightarrow> json option" where
  "loop_loads s =
     (if s = line_X then Some rec_X
      else if s = line_LA then Some rec_LA
      else if s = line_LB then Some rec_LB
      else if s = line_C then Some rec_C
      else if s = line_C_dumped then Some rec_C
      else None)"

definition loop_dumps :: "json \<Rightarrow> string" where
  "loop_dumps v = (if v = rec_C then line_C_dumped else ''{}'')"

definition loop_file :: string where
  "loop_file = line_X @ [newline] @ line_LA @ [newline] @ line_LB @ [newline] @ line_C @ [newline]"

definition loop_output :: "entry list" where
  "loop_output =
     parse_jsonl loop_loads
       (fst (repair_file in_order loop_loads loop_dumps utf8_encodable True loop_file))"

section \<open>Basic facts about the loops\<close>

lemma bindE_Inl [simp]: "bindE (Inl e) f = Inl e"
  by (simp add: bindE_def)

lemma bindE_Inr [simp]: "bindE (Inr v) f = f v"
  by (simp add: bindE_def)

lemma bindE_eq_Inr: "bindE m f = Inr r \<longleftrightarrow> (\<exists>v. m = Inr v \<and> f v = Inr r)"
  by (cases m) simp_all

lemma for_each_append:
  "for_each f s (xs @ ys) = bindE (for_each f s xs) (\<lambda>s'. for_each f s' ys)"
proof (induction xs arbitrary: s)
  case Nil
  show ?case by simp
next
  case (Cons x xs)
  show ?case by (cases "f s x") (simp_all add: Cons.IH)
qed

lemma for_each_invariant:
  assumes "for_each f s xs = Inr s'" and "P s"
    and "\<And>a x b. x \<in> set xs \<Longrightarrow> P a \<Longrightarrow> f a x = Inr b \<Longrightarrow> P b"
  shows "P s'"
  using assms
proof (induction xs arbitrary: s)
  case Nil
  then show ?case by simp
next
  case (Cons x xs)
  from Cons.prems(1) obtain m where m: "f s x = Inr m" and rest: "for_each f m xs = Inr s'"
    by (auto simp: bindE_eq_Inr)
  have "P m" using Cons.prems(2,3) m by (meson list.set_intros(1))
  then show ?case using Cons.IH [OF rest] Cons.prems(3) by (meson list.set_intros(2))
qed

lemma for_each_step:
  assumes "for_each f s xs = Inr s'" and "x \<in> set xs"
  shows "\<exists>ys zs a b. xs = ys @ x # zs \<and> for_each f s ys = Inr a \<and> f a x = Inr b
           \<and> for_each f b zs = Inr s'"
proof -
  from assms(2) obtain ys zs where xs: "xs = ys @ x # zs"
    by (meson split_list)
  with assms(1) show ?thesis
    by (auto simp: for_each_append bindE_eq_Inr)
qed

lemma for_each_unchanged:
  assumes "\<And>x. x \<in> set xs \<Longrightarrow> f s x = Inr s"
  shows "for_each f s xs = Inr s"
  using assms by (induction xs) simp_all

declare remap_walk.simps [simp del]

lemma walk_loop_remap_walk:
  "walk_loop id_to_parent rm seen ancestor = Some (remap_walk id_to_parent rm seen ancestor)"
proof (induction id_to_parent rm seen ancestor rule: remap_walk.induct)
  case (1 id_to_parent rm seen ancestor)
  show ?case
  proof (cases "hash_key ancestor")
    case (Inl e)
    then show ?thesis
      by (subst walk_loop.simps, subst remap_walk.simps) simp
  next
    case (Inr k)
    show ?thesis
    proof (cases "k \<in> set rm \<and> k \<notin> seen")
      case True
      with Inr "1.IH" [of k] show ?thesis
        by (subst walk_loop.simps, subst remap_walk.simps) simp
    next
      case False
      with Inr show ?thesis
        by (subst walk_loop.simps, subst remap_walk.simps) auto
    qed
  qed
qed

lemma remap_walk_hashable:
  assumes "\<forall>k v. id_to_parent k = Some v \<longrightarrow> (\<exists>h. hash_key v = Inr h)"
    and "\<exists>h. hash_key ancestor = Inr h"
  shows "\<exists>a. remap_walk id_to_parent rm seen ancestor = Inr a"
  using assms
proof (induction id_to_parent rm seen ancestor rule: remap_walk.induct)
  case (1 idp rm seen ancestor)
  from "1.prems" obtain k where k: "hash_key ancestor = Inr k" by blast
  show ?case
  proof (cases "k \<in> set rm \<and> k \<notin> seen")
    case True
    have "\<exists>h. hash_key (parent_of idp k) = Inr h"
      using "1.prems"(1) by (auto simp: parent_of_def split: option.splits)
    with True k "1.IH" [of k] "1.prems"(1) show ?thesis
      by (subst remap_walk.simps) simp
  next
    case False
    with k show ?thesis by (subst remap_walk.simps) auto
  qed
qed

lemma parent_of_hashable:
  assumes "\<forall>k v. id_to_parent k = Some v \<longrightarrow> (\<exists>h. hash_key v = Inr h)"
  shows "\<exists>h. hash_key (parent_of id_to_parent k) = Inr h"
  using assms by (auto simp: parent_of_def split: option.splits)

lemma parse_jsonl_blank:
  assumes "\<forall>l \<in> set (file_lines file). l = []"
  shows "parse_jsonl loads file = []"
proof -
  have "filter (\<lambda>(i, raw). raw \<noteq> []) (enumerate 1 (file_lines file)) = []"
    using assms by (auto simp: filter_empty_conv in_set_enumerate_eq)
  then show ?thesis by (simp add: parse_jsonl_def)
qed

section \<open>What each pass does to one entry\<close>

lemma pass1_body_alt:
  "pass1_body s (lineno, obj, raw) =
     (if obj = JNull then Inr s
      else bindE (is_broken_assistant obj) (\<lambda>b.
        if \<not> b then Inr s
        else bindE (id_key obj) (\<lambda>k.
          bindE (extract_tool_call_ids obj) (\<lambda>ids.
          bindE (message_field obj ''errorMessage'' (JStr [])) (\<lambda>em.
          bindE (slice80 em) (\<lambda>err.
            Inr (s\<lparr>broken_assistant_ids := List.insert k (broken_assistant_ids s),
                   broken_line_map := (broken_line_map s)(k \<mapsto> lineno),
                   broken_tool_call_ids := List.union (broken_tool_call_ids s) ids,
                   reasons := (reasons s)(k \<mapsto> ErrorPartialJson err)\<rparr>)))))))"
  by (simp add: pass1_body_def is_broken_assistant_def id_key_def bindE_def
      split: sum.splits)

lemma pass2_body_alt:
  "pass2_body s (lineno, obj, raw) =
     (if obj = JNull then Inr s
      else bindE (get_tool_result_id obj) (\<lambda>tr_id.
        if \<not> truthy tr_id then Inr s
        else bindE (hash_key tr_id) (\<lambda>t.
          if t \<notin> set (broken_tool_call_ids s) then Inr s
          else bindE (id_key obj) (\<lambda>k.
            Inr (s\<lparr>orphan_result_ids := List.insert k (orphan_result_ids s),
                   broken_line_map := (broken_line_map s)(k \<mapsto> lineno),
                   reasons := (reasons s)(k \<mapsto> OrphanToolResult tr_id)\<rparr>)))))"
  by (simp add: pass2_body_def id_key_def bindE_def split: sum.splits)

lemma pass3_body_alt:
  "pass3_body set_iter s (lineno, obj, raw) =
     (if obj = JNull then Inr s
      else bindE (is_empty_error_assistant obj) (\<lambda>empty_error.
        if \<not> empty_error then Inr s
        else bindE (message_field obj ''errorMessage'' (JStr [])) (\<lambda>err.
          bindE (first_match (set_iter (broken_tool_call_ids s)) err) (\<lambda>hit.
            case hit of
              None \<Rightarrow> Inr s
            | Some tc_id \<Rightarrow>
                bindE (id_key obj) (\<lambda>k.
                  Inr (s\<lparr>cascade_error_ids := List.insert k (cascade_error_ids s),
                         broken_line_map := (broken_line_map s)(k \<mapsto> lineno),
                         reasons := (reasons s)(k \<mapsto> Cascade400 tc_id)\<rparr>))))))"
  by (simp add: pass3_body_def id_key_def bindE_def split: sum.splits option.splits)

text \<open>The sets a pass does not write stay as they are; the ones it writes grow.\<close>

lemma pass1_body_frame:
  assumes "pass1_body s e = Inr s'"
  shows "orphan_result_ids s' = orphan_result_ids s \<and> cascade_error_ids s' = cascade_error_ids s
         \<and> set (broken_assistant_ids s) \<subseteq> set (broken_assistant_ids s')
         \<and> set (broken_tool_call_ids s) \<subseteq> set (broken_tool_call_ids s')"
proof -
  obtain lineno obj raw where e: "e = (lineno, obj, raw)" by (cases e)
  from assms show ?thesis
    unfolding e pass1_body_alt
    by (auto simp: bindE_eq_Inr split: if_splits)
qed

lemma pass2_body_frame:
  assumes "pass2_body s e = Inr s'"
  shows "broken_assistant_ids s' = broken_assistant_ids s
         \<and> broken_tool_call_ids s' = broken_tool_call_ids s
         \<and> cascade_error_ids s' = cascade_error_ids s
         \<and> set (orphan_result_ids s) \<subseteq> set (orphan_result_ids s')"
proof -
  obtain lineno obj raw where e: "e = (lineno, obj, raw)" by (cases e)
  from assms show ?thesis
    unfolding e pass2_body_alt
    by (auto simp: bindE_eq_Inr split: if_splits)
qed

lemma pass3_body_frame:
  assumes "pass3_body set_iter s e = Inr s'"
  shows "broken_assistant_ids s' = broken_assistant_ids s
         \<and> broken_tool_call_ids s' = broken_tool_call_ids s
         \<and> orphan_result_ids s' = orphan_result_ids s
         \<and> set (cascade_error_ids s) \<subseteq> set (cascade_error_ids s')"
proof -
  obtain lineno obj raw where e: "e = (lineno, obj, raw)" by (cases e)
  from assms show ?thesis
    unfolding e pass3_body_alt
    by (auto simp: bindE_eq_Inr split: if_splits option.splits)
qed

lemma pass1_frame:
  assumes "for_each pass1_body s es = Inr s'"
  shows "orphan_result_ids s' = orphan_result_ids s \<and> cascade_error_ids s' = cascade_error_ids s
         \<and> set (broken_assistant_ids s) \<subseteq> set (broken_assistant_ids s')
         \<and> set (broken_tool_call_ids s) \<subseteq> set (broken_tool_call_ids s')"
  by (rule for_each_invariant [OF assms, where
        P = "\<lambda>x. orphan_result_ids x = orphan_result_ids s
               \<and> cascade_error_ids x = cascade_error_ids s
               \<and> set (broken_assistant_ids s) \<subseteq> set (broken_assistant_ids x)
               \<and> set (broken_tool_call_ids s) \<subseteq> set (broken_tool_call_ids x)"])
     (use pass1_body_frame in \<open>force+\<close>)

lemma pass2_frame:
  assumes "for_each pass2_body s es = Inr s'"
  shows "broken_assistant_ids s' = broken_assistant_ids s
         \<and> broken_tool_call_ids s' = broken_tool_call_ids s
         \<and> cascade_error_ids s' = cascade_error_ids s
         \<and> set (orphan_result_ids s) \<subseteq> set (orphan_result_ids s')"
  by (rule for_each_invariant [OF assms, where
        P = "\<lambda>x. broken_assistant_ids x = broken_assistant_ids s
               \<and> broken_tool_call_ids x = broken_tool_call_ids s
               \<and> cascade_error_ids x = cascade_error_ids s
               \<and> set (orphan_result_ids s) \<subseteq> set (orphan_result_ids x)"])
     (use pass2_body_frame in \<open>force+\<close>)

lemma pass3_frame:
  assumes "for_each (pass3_body set_iter) s es = Inr s'"
  shows "broken_assistant_ids s' = broken_assistant_ids s
         \<and> broken_tool_call_ids s' = broken_tool_call_ids s
         \<and> orphan_result_ids s' = orphan_result_ids s
         \<and> set (cascade_error_ids s) \<subseteq> set (cascade_error_ids s')"
  by (rule for_each_invariant [OF assms, where
        P = "\<lambda>x. broken_assistant_ids x = broken_assistant_ids s
               \<and> broken_tool_call_ids x = broken_tool_call_ids s
               \<and> orphan_result_ids x = orphan_result_ids s
               \<and> set (cascade_error_ids s) \<subseteq> set (cascade_error_ids x)"])
     (use pass3_body_frame in \<open>force+\<close>)

section \<open>What a successful pass says about each entry\<close>

lemma pass1_entry:
  assumes run: "for_each pass1_body s es = Inr s'"
    and mem: "(lineno, obj, raw) \<in> set es" and obj: "obj \<noteq> JNull"
  shows "\<exists>b. is_broken_assistant obj = Inr b \<and>
           (b \<longrightarrow> (\<exists>k ids. id_key obj = Inr k \<and> k \<in> set (broken_assistant_ids s')
                      \<and> extract_tool_call_ids obj = Inr ids
                      \<and> set ids \<subseteq> set (broken_tool_call_ids s')))"
proof -
  from for_each_step [OF run mem] obtain ys zs a b where
    step: "pass1_body a (lineno, obj, raw) = Inr b" and rest: "for_each pass1_body b zs = Inr s'"
    by blast
  from step obj obtain br where br: "is_broken_assistant obj = Inr br"
    unfolding pass1_body_alt by (auto simp: bindE_eq_Inr)
  show ?thesis
  proof (cases br)
    case False
    with br show ?thesis by auto
  next
    case True
    with step obj br obtain k ids where k: "id_key obj = Inr k"
      and ids: "extract_tool_call_ids obj = Inr ids"
      and kb: "k \<in> set (broken_assistant_ids b)"
      and ib: "set ids \<subseteq> set (broken_tool_call_ids b)"
      unfolding pass1_body_alt by (auto simp: bindE_eq_Inr)
    with pass1_frame [OF rest] br True show ?thesis by auto
  qed
qed

lemma pass2_entry:
  assumes run: "for_each pass2_body s es = Inr s'"
    and mem: "(lineno, obj, raw) \<in> set es" and obj: "obj \<noteq> JNull"
  shows "\<exists>tr. get_tool_result_id obj = Inr tr \<and>
           (truthy tr \<longrightarrow> (\<exists>t. hash_key tr = Inr t \<and>
              (t \<in> set (broken_tool_call_ids s) \<longrightarrow>
                 (\<exists>k. id_key obj = Inr k \<and> k \<in> set (orphan_result_ids s')))))"
proof -
  from for_each_step [OF run mem] obtain ys zs a b where
    pre: "for_each pass2_body s ys = Inr a"
    and step: "pass2_body a (lineno, obj, raw) = Inr b"
    and rest: "for_each pass2_body b zs = Inr s'"
    by blast
  have same: "broken_tool_call_ids a = broken_tool_call_ids s"
    using pass2_frame [OF pre] by simp
  from step obj obtain tr where tr: "get_tool_result_id obj = Inr tr"
    unfolding pass2_body_alt by (auto simp: bindE_eq_Inr)
  show ?thesis
  proof (cases "truthy tr")
    case False
    with tr show ?thesis by simp
  next
    case True
    with step obj tr obtain t where t: "hash_key tr = Inr t"
      unfolding pass2_body_alt by (auto simp: bindE_eq_Inr)
    show ?thesis
    proof (cases "t \<in> set (broken_tool_call_ids s)")
      case False
      with tr t show ?thesis by simp
    next
      case hit: True
      with step obj tr True t same obtain k where k: "id_key obj = Inr k"
        and kb: "k \<in> set (orphan_result_ids b)"
        unfolding pass2_body_alt by (auto simp: bindE_eq_Inr)
      with pass2_frame [OF rest] tr t show ?thesis by auto
    qed
  qed
qed

lemma first_match_found:
  assumes "first_match ks err = Inr hit" and "t \<in> set ks" and "key_in t err = Inr True"
  shows "hit \<noteq> None"
  using assms
proof (induction ks)
  case Nil
  then show ?case by simp
next
  case (Cons k ks)
  from Cons.prems(1) obtain b where b: "key_in k err = Inr b"
    by (auto simp: bindE_eq_Inr)
  show ?case
  proof (cases b)
    case True
    with Cons.prems(1) b show ?thesis by auto
  next
    case False
    with Cons.prems b have "first_match ks err = Inr hit" and "t \<in> set ks"
      by auto
    with Cons.IH Cons.prems(3) show ?thesis by simp
  qed
qed

lemma pass3_entry:
  assumes run: "for_each (pass3_body set_iter) s es = Inr s'"
    and mem: "(lineno, obj, raw) \<in> set es" and obj: "obj \<noteq> JNull"
  shows "\<exists>b. is_empty_error_assistant obj = Inr b \<and>
           (b \<longrightarrow> (\<exists>err. message_field obj ''errorMessage'' (JStr []) = Inr err \<and>
              (\<forall>t \<in> set (set_iter (broken_tool_call_ids s)). key_in t err = Inr True \<longrightarrow>
                 (\<exists>k. id_key obj = Inr k \<and> k \<in> set (cascade_error_ids s')))))"
proof -
  from for_each_step [OF run mem] obtain ys zs a b where
    pre: "for_each (pass3_body set_iter) s ys = Inr a"
    and step: "pass3_body set_iter a (lineno, obj, raw) = Inr b"
    and rest: "for_each (pass3_body set_iter) b zs = Inr s'"
    by blast
  have same: "broken_tool_call_ids a = broken_tool_call_ids s"
    using pass3_frame [OF pre] by simp
  from step obj obtain ee where ee: "is_empty_error_assistant obj = Inr ee"
    unfolding pass3_body_alt by (auto simp: bindE_eq_Inr)
  show ?thesis
  proof (cases ee)
    case False
    with ee show ?thesis by auto
  next
    case True
    with step obj ee same obtain err hit
      where err: "message_field obj ''errorMessage'' (JStr []) = Inr err"
      and hit: "first_match (set_iter (broken_tool_call_ids s)) err = Inr hit"
      unfolding pass3_body_alt by (auto simp: bindE_eq_Inr)
    have "\<exists>k. id_key obj = Inr k \<and> k \<in> set (cascade_error_ids s')"
      if t: "t \<in> set (set_iter (broken_tool_call_ids s))" "key_in t err = Inr True" for t
    proof -
      from first_match_found [OF hit t] obtain tc where tc: "hit = Some tc" by auto
      with step obj ee True err hit same obtain k where k: "id_key obj = Inr k"
        and kb: "k \<in> set (cascade_error_ids b)"
        unfolding pass3_body_alt by (auto simp: bindE_eq_Inr)
      with pass3_frame [OF rest] show ?thesis by auto
    qed
    with ee err show ?thesis by blast
  qed
qed

text \<open>Whether pass 4 raises on an entry does not depend on the ids gathered so far.\<close>

lemma all_ids_body_any:
  assumes "all_ids_body ids e = Inr r"
  shows "\<exists>r'. all_ids_body ids' e = Inr r'"
proof -
  obtain lineno obj raw where e: "e = (lineno, obj, raw)" by (cases e)
  show ?thesis
  proof (cases "obj = JNull")
    case True
    then show ?thesis by (simp add: e all_ids_body_def)
  next
    case False
    from assms False obtain role where role: "get_role obj = Inr role"
      by (auto simp: e all_ids_body_def bindE_eq_Inr)
    show ?thesis
    proof (cases "role = JStr ''assistant''")
      case ne: False
      with False role show ?thesis by (simp add: e all_ids_body_def)
    next
      case eq: True
      from assms False role eq obtain err where err: "is_error_assistant obj = Inr err"
        by (auto simp: e all_ids_body_def bindE_eq_Inr)
      show ?thesis
      proof (cases err)
        case True
        with False role eq err show ?thesis by (simp add: e all_ids_body_def)
      next
        case noerr: False
        from assms False role eq err noerr obtain new
          where "extract_tool_call_ids obj = Inr new"
          by (auto simp: e all_ids_body_def bindE_eq_Inr)
        with False role eq err noerr show ?thesis by (simp add: e all_ids_body_def)
      qed
    qed
  qed
qed

lemma pass4_entry:
  assumes run: "for_each all_ids_body ids es = Inr r" and mem: "e \<in> set es"
  shows "\<exists>r'. all_ids_body ids' e = Inr r'"
proof -
  from for_each_step [OF run mem] obtain a b where "all_ids_body a e = Inr b"
    by blast
  then show ?thesis by (rule all_ids_body_any)
qed

lemma for_each_succeeds:
  assumes "\<And>x s. x \<in> set xs \<Longrightarrow> \<exists>s'. f s x = Inr s'"
  shows "\<exists>s'. for_each f s xs = Inr s'"
  using assms
proof (induction xs arbitrary: s)
  case Nil
  show ?case by simp
next
  case (Cons x xs)
  from Cons.prems [of x s] obtain m where m: "f s x = Inr m" by auto
  from Cons.IH [of m] Cons.prems obtain s' where "for_each f m xs = Inr s'"
    by (meson list.set_intros(2))
  with m show ?case by simp
qed

section \<open>Reading back what was written\<close>

lemma file_lines_newline_free:
  "l \<in> set (file_lines fl) \<Longrightarrow> newline \<notin> set l"
proof (induction fl arbitrary: l)
  case Nil
  then show ?case by simp
next
  case (Cons c cs)
  show ?case
  proof (cases "c = newline")
    case True
    with Cons show ?thesis by auto
  next
    case False
    show ?thesis
    proof (cases "file_lines cs")
      case Nil
      with False Cons.prems show ?thesis by simp
    next
      case (Cons l' ls)
      with False Cons.prems Cons.IH show ?thesis by auto
    qed
  qed
qed

lemma file_lines_line:
  assumes "newline \<notin> set x"
  shows "file_lines (x @ newline # rest) = x # file_lines rest"
  using assms by (induction x) auto

lemma file_lines_write:
  assumes "\<forall>l \<in> set out. newline \<notin> set l" and "out \<noteq> []"
  shows "file_lines (write_lines out) = out"
  using assms
proof (induction out rule: join_nl.induct)
  case 1
  then show ?case by simp
next
  case (2 x)
  then show ?case
    using file_lines_line [of x "[]"] by (simp add: write_lines_def)
next
  case (3 x y ys)
  then have "file_lines (write_lines (y # ys)) = y # ys" by simp
  with 3 show ?case
    using file_lines_line [of x "join_nl (y # ys) @ [newline]"]
    by (simp add: write_lines_def)
qed

lemma enumerate_filter_all:
  assumes "\<forall>l \<in> set ls. l \<noteq> []"
  shows "filter (\<lambda>(i, raw). raw \<noteq> []) (enumerate n ls) = enumerate n ls"
  using assms by (auto simp: filter_id_conv in_set_enumerate_eq)

lemma parse_jsonl_write:
  assumes "\<forall>l \<in> set out. l \<noteq> [] \<and> newline \<notin> set l"
  shows "parse_jsonl loads (write_lines out) =
           map (\<lambda>(i, raw). (i, decode_line loads raw, raw)) (enumerate 1 out)"
proof (cases "out = []")
  case True
  then show ?thesis by (simp add: parse_jsonl_def write_lines_def)
next
  case False
  with assms have "file_lines (write_lines out) = out"
    by (simp add: file_lines_write)
  with assms show ?thesis
    by (simp add: parse_jsonl_def enumerate_filter_all)
qed

lemma enumerate_snd_mem:
  assumes "(i, x) \<in> set (enumerate n xs)"
  shows "x \<in> set xs"
  using assms by (auto simp: in_set_enumerate_eq)

lemma parse_jsonl_entry:
  assumes "(lineno, obj, raw) \<in> set (parse_jsonl loads file)"
  shows "obj = decode_line loads raw \<and> raw \<noteq> [] \<and> newline \<notin> set raw"
proof -
  from assms have mem: "(lineno, raw) \<in> set (enumerate 1 (file_lines file))"
    and obj: "obj = decode_line loads raw" and ne: "raw \<noteq> []"
    by (auto simp: parse_jsonl_def)
  from enumerate_snd_mem [OF mem] have "newline \<notin> set raw"
    by (rule file_lines_newline_free)
  with obj ne show ?thesis by simp
qed

lemma map_snd_parse_write:
  assumes "\<forall>l \<in> set out. l \<noteq> [] \<and> newline \<notin> set l"
  shows "map snd (parse_jsonl loads (write_lines out)) = map (\<lambda>raw. (decode_line loads raw, raw)) out"
proof -
  have "map snd (map (\<lambda>(i, raw). (i, decode_line loads raw, raw)) (enumerate n out))
          = map (\<lambda>raw. (decode_line loads raw, raw)) out" for n
    by (induction out arbitrary: n) simp_all
  with parse_jsonl_write [OF assms] show ?thesis by simp
qed

section \<open>Setting the parent changes nothing else\<close>

lemma set_parent_id_Inr:
  assumes "set_parent_id obj v = Inr obj'"
  shows "\<exists>kvs. obj = JObj kvs \<and> obj' = JObj (AList.update ''parentId'' v kvs)"
  using assms by (cases obj) auto

lemma dict_get_set_parent:
  assumes "set_parent_id obj v = Inr obj'" and "k \<noteq> ''parentId''"
  shows "dict_get obj' k d = dict_get obj k d"
proof -
  from set_parent_id_Inr [OF assms(1)] obtain kvs where
    "obj = JObj kvs" "obj' = JObj (AList.update ''parentId'' v kvs)" by blast
  with assms(2) show ?thesis
    by (simp add: obj_get_def update_conv')
qed

lemma get_parent_set_parent:
  assumes "set_parent_id obj v = Inr obj'"
  shows "get_parent_id obj' = Inr v"
proof -
  from set_parent_id_Inr [OF assms] obtain kvs where
    "obj = JObj kvs" "obj' = JObj (AList.update ''parentId'' v kvs)" by blast
  then show ?thesis
    by (simp add: get_parent_id_def obj_get_def update_conv')
qed

lemma set_parent_not_null:
  assumes "set_parent_id obj v = Inr obj'"
  shows "obj \<noteq> JNull \<and> obj' \<noteq> JNull"
  using set_parent_id_Inr [OF assms] by auto

lemma set_parent_message:
  assumes "set_parent_id obj v = Inr obj'"
  shows "dict_get obj' ''message'' d = dict_get obj ''message'' d"
  by (rule dict_get_set_parent [OF assms]) simp

lemma set_parent_extractors:
  assumes "set_parent_id obj v = Inr obj'"
  shows "get_role obj' = get_role obj"
    and "get_id obj' = get_id obj"
    and "id_key obj' = id_key obj"
    and "message_field obj' k d = message_field obj k d"
    and "is_error_assistant obj' = is_error_assistant obj"
    and "has_partial_json obj' = has_partial_json obj"
    and "extract_tool_call_ids obj' = extract_tool_call_ids obj"
    and "is_empty_error_assistant obj' = is_empty_error_assistant obj"
    and "get_tool_result_id obj' = get_tool_result_id obj"
proof -
  note m = set_parent_message [OF assms]
  show "get_role obj' = get_role obj" by (simp add: get_role_def m)
  show i: "get_id obj' = get_id obj"
    by (simp add: get_id_def dict_get_set_parent [OF assms])
  show "id_key obj' = id_key obj" by (simp add: id_key_def i)
  show f: "message_field obj' k d = message_field obj k d" for k d
    by (simp add: message_field_def m)
  show "is_error_assistant obj' = is_error_assistant obj"
    by (simp add: is_error_assistant_def f)
  show "has_partial_json obj' = has_partial_json obj"
    by (simp add: has_partial_json_def f)
  show "extract_tool_call_ids obj' = extract_tool_call_ids obj"
    by (simp add: extract_tool_call_ids_def f)
  show "is_empty_error_assistant obj' = is_empty_error_assistant obj"
    by (simp add: is_empty_error_assistant_def m)
  show "get_tool_result_id obj' = get_tool_result_id obj"
    by (simp add: get_tool_result_id_def m)
qed

lemma repaired_obj_cases:
  "repaired_obj fixes obj = obj \<or>
   (\<exists>pk v. parent_key obj = Inr pk \<and> fixes pk = Some v
      \<and> set_parent_id obj v = Inr (repaired_obj fixes obj))"
  by (auto simp: repaired_obj_def split: sum.splits option.splits)

lemma repaired_extractors:
  shows "get_role (repaired_obj fixes obj) = get_role obj"
    and "id_key (repaired_obj fixes obj) = id_key obj"
    and "message_field (repaired_obj fixes obj) k d = message_field obj k d"
    and "is_error_assistant (repaired_obj fixes obj) = is_error_assistant obj"
    and "has_partial_json (repaired_obj fixes obj) = has_partial_json obj"
    and "extract_tool_call_ids (repaired_obj fixes obj) = extract_tool_call_ids obj"
    and "is_empty_error_assistant (repaired_obj fixes obj) = is_empty_error_assistant obj"
    and "get_tool_result_id (repaired_obj fixes obj) = get_tool_result_id obj"
  using repaired_obj_cases [of "fixes" obj] set_parent_extractors [of obj _ "repaired_obj fixes obj"]
  by auto

lemma repaired_broken:
  "is_broken_assistant (repaired_obj fixes obj) = is_broken_assistant obj"
  by (simp add: is_broken_assistant_def error_with_partial_def repaired_extractors cong: if_cong)

lemma repaired_null:
  "repaired_obj fixes obj = JNull \<longleftrightarrow> obj = JNull"
  using repaired_obj_cases [of "fixes" obj] set_parent_not_null by auto

section \<open>The output of the applier\<close>

lemma apply_body_alt:
  "apply_body dumps rm fixes st (lineno, obj, raw) =
     (if obj = JNull then Inr (st\<lparr>output_lines := output_lines st @ [raw]\<rparr>)
      else bindE (id_key obj) (\<lambda>k.
        if k \<in> set rm then Inr (st\<lparr>removed := removed st + 1\<rparr>)
        else bindE (parent_key obj) (\<lambda>pk.
          case fixes pk of
            Some v \<Rightarrow>
              bindE (set_parent_id obj v) (\<lambda>obj'.
                Inr (st\<lparr>fixed := fixed st + 1, output_lines := output_lines st @ [dumps obj']\<rparr>))
          | None \<Rightarrow> Inr (st\<lparr>output_lines := output_lines st @ [raw]\<rparr>))))"
  by (simp add: apply_body_def id_key_def parent_key_def bindE_def split: sum.splits)

lemma parent_key_dict:
  assumes "id_key obj = Inr k"
  shows "\<exists>kvs. obj = JObj kvs"
  using assms by (cases obj) (simp_all add: id_key_def get_id_def)

lemma apply_body_step:
  assumes "apply_body dumps rm fixes st e = Inr st'"
  shows "output_lines st' =
           output_lines st @ map (written_line dumps fixes) (kept_entries rm [e])"
proof -
  obtain lineno obj raw where e: "e = (lineno, obj, raw)" by (cases e)
  show ?thesis
  proof (cases "obj = JNull")
    case True
    with assms show ?thesis
      by (auto simp: e apply_body_alt kept_entries_def in_removal_set_def written_line_def
          is_rewritten_def)
  next
    case False
    from assms False obtain k where k: "id_key obj = Inr k"
      by (auto simp: e apply_body_alt bindE_eq_Inr)
    show ?thesis
    proof (cases "k \<in> set rm")
      case True
      with assms False k show ?thesis
        by (auto simp: e apply_body_alt kept_entries_def in_removal_set_def)
    next
      case nk: False
      from assms False k nk obtain pk where pk: "parent_key obj = Inr pk"
        by (auto simp: e apply_body_alt bindE_eq_Inr)
      from parent_key_dict [OF k] obtain kvs where kvs: "obj = JObj kvs" by blast
      show ?thesis
      proof (cases "fixes pk")
        case None
        with assms False k nk pk show ?thesis
          by (auto simp: e apply_body_alt kept_entries_def in_removal_set_def written_line_def
              is_rewritten_def)
      next
        case (Some v)
        with assms False k nk pk kvs show ?thesis
          by (auto simp: e apply_body_alt kept_entries_def in_removal_set_def written_line_def
              is_rewritten_def repaired_obj_def)
      qed
    qed
  qed
qed

lemma kept_entries_Cons:
  "kept_entries rm (e # es) = kept_entries rm [e] @ kept_entries rm es"
  by (simp add: kept_entries_def)

lemma apply_output:
  assumes "for_each (apply_body dumps rm fixes) st es = Inr st'"
  shows "output_lines st' = output_lines st @ map (written_line dumps fixes) (kept_entries rm es)"
  using assms
proof (induction es arbitrary: st)
  case Nil
  then show ?case by (simp add: kept_entries_def)
next
  case (Cons e es)
  from Cons.prems obtain m where m: "apply_body dumps rm fixes st e = Inr m"
    and rest: "for_each (apply_body dumps rm fixes) m es = Inr st'"
    by (auto simp: bindE_eq_Inr)
  from Cons.IH [OF rest] apply_body_step [OF m] show ?case
    by (subst kept_entries_Cons) simp
qed

text \<open>A run of the applier that does not raise has hashed the id of every decoded
  record and the parent id of every one it keeps.\<close>

lemma apply_entry:
  assumes run: "for_each (apply_body dumps rm fixes) st es = Inr st'"
    and mem: "(lineno, obj, raw) \<in> set es" and obj: "obj \<noteq> JNull"
  shows "\<exists>k. id_key obj = Inr k \<and> (k \<notin> set rm \<longrightarrow> (\<exists>pk. parent_key obj = Inr pk))"
proof -
  from for_each_step [OF run mem] obtain a b where
    "apply_body dumps rm fixes a (lineno, obj, raw) = Inr b" by blast
  with obj show ?thesis
    by (auto simp: apply_body_alt bindE_eq_Inr split: if_splits)
qed

section \<open>The parts of a report\<close>

lemma py_sorted_Inr: "py_sorted ks = Inr r \<Longrightarrow> r = ks"
  by (simp add: py_sorted_def split: if_splits)

lemma analyze_entries_Corrupted:
  assumes "analyze_entries set_iter es = Inr (Corrupted f)"
  obtains s1 s2 s3 av idp where
    "for_each pass1_body scan0 es = Inr s1"
    "for_each pass2_body s1 es = Inr s2"
    "for_each (pass3_body set_iter) s2 es = Inr s3"
    "extract_all_tool_call_ids es = Inr av"
    "remove_ids f = remdups (broken_assistant_ids s3 @ orphan_result_ids s3 @ cascade_error_ids s3)"
    "for_each id_to_parent_body Map.empty es = Inr idp"
    "for_each (parent_fix_body idp (remove_ids f)) Map.empty (remove_ids f) = Inr (parent_fixes f)"
    "broken_assistants f = broken_assistant_ids s3"
    "orphan_results f = orphan_result_ids s3"
    "cascade_errors f = cascade_error_ids s3"
    "poisoned_ids f = broken_tool_call_ids s3"
    "unparseable_lines f = unparseable_of es"
    "lines f = length es"
    "remove_ids f \<noteq> [] \<or> unparseable_of es \<noteq> []"
proof -
  from assms have ne: "es \<noteq> []"
    by (auto simp: analyze_entries_def)
  with assms obtain s1 where s1: "for_each pass1_body scan0 es = Inr s1"
    by (auto simp: analyze_entries_def bindE_eq_Inr)
  with assms ne obtain s2 where s2: "for_each pass2_body s1 es = Inr s2"
    by (auto simp: analyze_entries_def bindE_eq_Inr)
  with assms ne s1 obtain s3 where s3: "for_each (pass3_body set_iter) s2 es = Inr s3"
    by (auto simp: analyze_entries_def bindE_eq_Inr)
  with assms ne s1 s2 obtain av where av: "extract_all_tool_call_ids es = Inr av"
    by (auto simp: analyze_entries_def bindE_eq_Inr)
  let ?rm = "remdups (broken_assistant_ids s3 @ orphan_result_ids s3 @ cascade_error_ids s3)"
  from assms ne s1 s2 s3 av have dirty: "?rm \<noteq> [] \<or> unparseable_of es \<noteq> []"
    by (auto simp: analyze_entries_def Let_def split: if_splits)
  with assms ne s1 s2 s3 av obtain idp fx ba orr ce btc where
    idp: "for_each id_to_parent_body Map.empty es = Inr idp"
    and fxs: "for_each (parent_fix_body idp ?rm) Map.empty ?rm = Inr fx"
    and ba: "py_sorted (broken_assistant_ids s3) = Inr ba"
    and orr: "py_sorted (orphan_result_ids s3) = Inr orr"
    and ce: "py_sorted (cascade_error_ids s3) = Inr ce"
    and btc: "py_sorted (broken_tool_call_ids s3) = Inr btc"
    and f: "f = \<lparr>lines = length es, broken_assistants = ba, orphan_results = orr,
              cascade_errors = ce, unparseable_lines = unparseable_of es,
              remove_ids = ?rm, remove_count = length ?rm, parent_fixes = fx,
              line_map = broken_line_map s3, poisoned_ids = btc,
              reason_of = reasons s3\<rparr>"
    by (auto simp: analyze_entries_def Let_def bindE_eq_Inr split: if_splits)
  show ?thesis
  proof (rule that [OF s1 s2 s3 av _ idp])
    show "remove_ids f = remdups (broken_assistant_ids s3 @ orphan_result_ids s3 @ cascade_error_ids s3)"
      by (simp add: f)
    show "for_each (parent_fix_body idp (remove_ids f)) Map.empty (remove_ids f) = Inr (parent_fixes f)"
      using fxs by (simp add: f)
    show "broken_assistants f = broken_assistant_ids s3"
      using py_sorted_Inr [OF ba] by (simp add: f)
    show "orphan_results f = orphan_result_ids s3"
      using py_sorted_Inr [OF orr] by (simp add: f)
    show "cascade_errors f = cascade_error_ids s3"
      using py_sorted_Inr [OF ce] by (simp add: f)
    show "poisoned_ids f = broken_tool_call_ids s3"
      using py_sorted_Inr [OF btc] by (simp add: f)
    show "unparseable_lines f = unparseable_of es" by (simp add: f)
    show "lines f = length es" by (simp add: f)
    show "remove_ids f \<noteq> [] \<or> unparseable_of es \<noteq> []"
      using dirty by (simp add: f)
  qed
qed

section \<open>Scanning a transcript that holds no broken assistant\<close>

lemma all_ids_body_entry:
  "all_ids_body ids (lineno, obj, raw) = all_ids_body ids (lineno', obj, raw')"
  by (simp add: all_ids_body_def)

lemma empty_error_has_message:
  assumes "is_empty_error_assistant obj = Inr True"
  shows "\<exists>err. message_field obj ''errorMessage'' (JStr []) = Inr err"
  using assms
  by (auto simp: is_empty_error_assistant_def message_field_def split: sum.splits if_splits)

lemma scan0_fields [simp]:
  "broken_assistant_ids scan0 = []" "broken_tool_call_ids scan0 = []"
  "orphan_result_ids scan0 = []" "cascade_error_ids scan0 = []"
  by (simp_all add: scan0_def)

lemma id_key_parent:
  assumes "id_key obj = Inr k"
  shows "\<exists>oid p. get_id obj = Inr oid \<and> hash_key oid = Inr k \<and> get_parent_id obj = Inr p"
proof -
  from parent_key_dict [OF assms] obtain kvs where "obj = JObj kvs" by blast
  with assms show ?thesis
    by (auto simp: id_key_def get_parent_id_def bindE_eq_Inr)
qed

lemma rescan:
  assumes iter: "set_iter [] = []"
    and ok: "\<And>lineno obj raw. (lineno, obj, raw) \<in> set es \<Longrightarrow> obj \<noteq> JNull \<Longrightarrow> settled obj"
  shows "\<exists>rep. analyze_entries set_iter es = Inr rep
           \<and> (corrupted rep \<longleftrightarrow> unparseable_of es \<noteq> [])
           \<and> (\<forall>f. rep = Corrupted f \<longrightarrow>
                 remove_ids f = [] \<and> parent_fixes f = Map.empty
                 \<and> unparseable_lines f = unparseable_of es)"
proof (cases "es = []")
  case True
  then show ?thesis by (simp add: analyze_entries_def unparseable_of_def)
next
  case False
  have p1: "for_each pass1_body scan0 es = Inr scan0"
  proof (rule for_each_unchanged)
    fix e assume e: "e \<in> set es"
    obtain lineno obj raw where [simp]: "e = (lineno, obj, raw)" by (cases e)
    from ok [of lineno obj raw] e show "pass1_body scan0 e = Inr scan0"
      by (auto simp: pass1_body_alt settled_def)
  qed
  have p2: "for_each pass2_body scan0 es = Inr scan0"
  proof (rule for_each_unchanged)
    fix e assume e: "e \<in> set es"
    obtain lineno obj raw where [simp]: "e = (lineno, obj, raw)" by (cases e)
    from ok [of lineno obj raw] e show "pass2_body scan0 e = Inr scan0"
      by (auto simp: pass2_body_alt settled_def)
  qed
  have p3: "for_each (pass3_body set_iter) scan0 es = Inr scan0"
  proof (rule for_each_unchanged)
    fix e assume e: "e \<in> set es"
    obtain lineno obj raw where [simp]: "e = (lineno, obj, raw)" by (cases e)
    show "pass3_body set_iter scan0 e = Inr scan0"
    proof (cases "obj = JNull")
      case True
      then show ?thesis by (simp add: pass3_body_alt)
    next
      case nn: False
      with ok [of lineno obj raw] e obtain b where b: "is_empty_error_assistant obj = Inr b"
        by (auto simp: settled_def)
      show ?thesis
      proof (cases b)
        case True
        with b empty_error_has_message [of obj] obtain err where
          "message_field obj ''errorMessage'' (JStr []) = Inr err" by auto
        with nn b True iter show ?thesis by (simp add: pass3_body_alt)
      next
        case False
        with nn b show ?thesis by (simp add: pass3_body_alt)
      qed
    qed
  qed
  have "\<exists>av. for_each all_ids_body [] es = Inr av"
  proof (rule for_each_succeeds)
    fix e :: entry and ids assume e: "e \<in> set es"
    obtain lineno obj raw where [simp]: "e = (lineno, obj, raw)" by (cases e)
    show "\<exists>s'. all_ids_body ids e = Inr s'"
    proof (cases "obj = JNull")
      case True
      then show ?thesis by (simp add: all_ids_body_def)
    next
      case nn: False
      with ok [of lineno obj raw] e obtain r where "all_ids_body [] (0, obj, []) = Inr r"
        by (auto simp: settled_def)
      from all_ids_body_any [OF this, of ids] show ?thesis
        by (simp add: all_ids_body_entry [of _ lineno obj raw 0 "[]"])
    qed
  qed
  then obtain av where p4: "extract_all_tool_call_ids es = Inr av"
    by (auto simp: extract_all_tool_call_ids_def)
  show ?thesis
  proof (cases "unparseable_of es = []")
    case True
    with False p1 p2 p3 p4 show ?thesis
      by (simp add: analyze_entries_def)
  next
    case dirty: False
    have "\<exists>idp. for_each id_to_parent_body Map.empty es = Inr idp"
    proof (rule for_each_succeeds)
      fix e :: entry and m assume e: "e \<in> set es"
      obtain lineno obj raw where [simp]: "e = (lineno, obj, raw)" by (cases e)
      show "\<exists>s'. id_to_parent_body m e = Inr s'"
      proof (cases "obj = JNull")
        case True
        then show ?thesis by (simp add: id_to_parent_body_def)
      next
        case nn: False
        with ok [of lineno obj raw] e obtain k where "id_key obj = Inr k"
          by (auto simp: settled_def)
        from id_key_parent [OF this] nn show ?thesis
          by (auto simp: id_to_parent_body_def)
      qed
    qed
    then obtain idp where idp: "for_each id_to_parent_body Map.empty es = Inr idp"
      by blast
    have srt: "py_sorted [] = Inr []" by (simp add: py_sorted_def sortable_def)
    from False p1 p2 p3 p4 dirty idp srt show ?thesis
      by (simp add: analyze_entries_def)
  qed
qed

section \<open>The records a repair keeps\<close>

lemma idp_entry:
  assumes run: "for_each id_to_parent_body m es = Inr idp"
    and mem: "(lineno, obj, raw) \<in> set es" and obj: "obj \<noteq> JNull"
  shows "\<exists>k. id_key obj = Inr k"
proof -
  from for_each_step [OF run mem] obtain a b where
    "id_to_parent_body a (lineno, obj, raw) = Inr b" by blast
  with obj show ?thesis
    by (auto simp: id_to_parent_body_def id_key_def bindE_eq_Inr)
qed

lemma all_ids_body_repaired:
  "all_ids_body ids (lineno, repaired_obj fx obj, raw) = all_ids_body ids (lineno, obj, raw)"
  by (simp add: all_ids_body_def repaired_extractors repaired_null cong: if_cong)

lemma removal_covers:
  assumes "analyze_entries set_iter es = Inr (Corrupted f)"
  shows "set (remove_ids f)
           = set (broken_assistants f) \<union> set (orphan_results f) \<union> set (cascade_errors f)"
  using assms by (elim analyze_entries_Corrupted) auto

lemma kept_settled:
  assumes an: "analyze_entries set_iter es = Inr (Corrupted f)"
    and mem: "(lineno, obj, raw) \<in> set es" and obj: "obj \<noteq> JNull"
    and kept: "\<not> in_removal_set (remove_ids f) (lineno, obj, raw)"
  shows "settled (repaired_obj fx obj)"
proof -
  from an obtain s1 s2 s3 av idp where
    p1: "for_each pass1_body scan0 es = Inr s1"
    and p2: "for_each pass2_body s1 es = Inr s2"
    and p3: "for_each (pass3_body set_iter) s2 es = Inr s3"
    and p4: "extract_all_tool_call_ids es = Inr av"
    and rm: "remove_ids f = remdups (broken_assistant_ids s3 @ orphan_result_ids s3 @ cascade_error_ids s3)"
    and idp: "for_each id_to_parent_body Map.empty es = Inr idp"
    by (rule analyze_entries_Corrupted)
  from idp_entry [OF idp mem obj] obtain k where k: "id_key obj = Inr k" by blast
  with kept obj have notin: "k \<notin> set (remove_ids f)"
    by (simp add: in_removal_set_def)
  have b13: "broken_assistant_ids s3 = broken_assistant_ids s1"
    using pass2_frame [OF p2] pass3_frame [OF p3] by simp
  from pass1_entry [OF p1 mem obj] obtain b where
    b: "is_broken_assistant obj = Inr b"
    and bk: "b \<longrightarrow> (\<exists>k'. id_key obj = Inr k' \<and> k' \<in> set (broken_assistant_ids s1))"
    by blast
  have nb: "\<not> b"
  proof
    assume b
    with bk k have "k \<in> set (broken_assistant_ids s1)" by auto
    with notin rm b13 show False by simp
  qed
  from pass2_entry [OF p2 mem obj] obtain tr where
    tr: "get_tool_result_id obj = Inr tr" "\<not> truthy tr \<or> (\<exists>t. hash_key tr = Inr t)"
    by blast
  from pass3_entry [OF p3 mem obj] obtain e where e: "is_empty_error_assistant obj = Inr e"
    by blast
  from pass4_entry [OF p4 [unfolded extract_all_tool_call_ids_def] mem, of "[]"]
  obtain r where "all_ids_body [] (lineno, obj, raw) = Inr r" by blast
  then have r: "all_ids_body [] (0, obj, []) = Inr r"
    by (simp add: all_ids_body_entry [of _ lineno obj raw 0 "[]"])
  from b nb tr e r k show ?thesis
    by (auto simp: settled_def repaired_extractors repaired_broken all_ids_body_repaired)
qed

section \<open>The parent fixes\<close>

lemma remap_walk_result:
  assumes "remap_walk idp rm seen a = Inr v"
  shows "(\<exists>k. hash_key v = Inr k) \<and> (v = a \<or> (\<exists>k \<in> set rm. v = parent_of idp k))"
  using assms
proof (induction idp rm seen a rule: remap_walk.induct)
  case (1 idp rm seen a)
  from "1.prems" obtain k where k: "hash_key a = Inr k"
    by (subst (asm) remap_walk.simps) (auto split: sum.splits)
  show ?case
  proof (cases "k \<in> set rm \<and> k \<notin> seen")
    case True
    with "1.prems" k have "remap_walk idp rm (insert k seen) (parent_of idp k) = Inr v"
      by (subst (asm) remap_walk.simps) simp
    from "1.IH" [OF k _ _ this] True show ?thesis by auto
  next
    case False
    with "1.prems" k have "v = a"
      by (subst (asm) remap_walk.simps) (auto split: if_splits)
    with k show ?thesis by simp
  qed
qed

lemma parent_fix_body_result:
  assumes "parent_fix_body idp rm m rid = Inr m'"
  shows "\<exists>v. remap_walk idp rm {rid} (parent_of idp rid) = Inr v \<and> m' = m(rid \<mapsto> v)"
  using assms by (auto simp: parent_fix_body_def bindE_eq_Inr)

lemma parent_fixes_result:
  assumes "for_each (parent_fix_body idp rm) m rids = Inr fx"
  shows "dom fx = dom m \<union> set rids \<and>
         (\<forall>k v. fx k = Some v \<longrightarrow>
            m k = Some v \<or> (k \<in> set rids \<and> remap_walk idp rm {k} (parent_of idp k) = Inr v))"
  using assms
proof (induction rids arbitrary: m)
  case Nil
  then show ?case by simp
next
  case (Cons rid rids)
  from Cons.prems obtain m' where m': "parent_fix_body idp rm m rid = Inr m'"
    and rest: "for_each (parent_fix_body idp rm) m' rids = Inr fx"
    by (auto simp: bindE_eq_Inr)
  from parent_fix_body_result [OF m'] obtain w where
    w: "remap_walk idp rm {rid} (parent_of idp rid) = Inr w" and mw: "m' = m(rid \<mapsto> w)"
    by blast
  from Cons.IH [OF rest] have
    d: "dom fx = dom m' \<union> set rids"
    and v: "\<And>k v. fx k = Some v \<Longrightarrow>
              m' k = Some v \<or> (k \<in> set rids \<and> remap_walk idp rm {k} (parent_of idp k) = Inr v)"
    by blast+
  have "dom fx = dom m \<union> set (rid # rids)"
    using d mw by auto
  moreover have "m k = Some v \<or> (k \<in> set (rid # rids) \<and> remap_walk idp rm {k} (parent_of idp k) = Inr v)"
    if "fx k = Some v" for k v
    using v [OF that] mw w by (auto split: if_splits)
  ultimately show ?case by blast
qed

lemma report_parent_fixes:
  assumes "analyze_entries set_iter es = Inr (Corrupted f)"
  shows "\<exists>idp. for_each id_to_parent_body Map.empty es = Inr idp
           \<and> dom (parent_fixes f) = set (remove_ids f)
           \<and> (\<forall>k v. parent_fixes f k = Some v \<longrightarrow>
                 remap_walk idp (remove_ids f) {k} (parent_of idp k) = Inr v)"
proof -
  from assms obtain idp where
    idp: "for_each id_to_parent_body Map.empty es = Inr idp"
    and fx: "for_each (parent_fix_body idp (remove_ids f)) Map.empty (remove_ids f)
               = Inr (parent_fixes f)"
    by (rule analyze_entries_Corrupted)
  from parent_fixes_result [OF fx] idp show ?thesis
    by auto
qed

section \<open>The file after the repair\<close>

lemma not_rewritten_repaired:
  assumes "\<not> is_rewritten fx obj"
  shows "repaired_obj fx obj = obj"
proof (cases "obj = JNull")
  case True
  then show ?thesis
    by (simp add: repaired_obj_def parent_key_def get_parent_id_def)
next
  case False
  with assms show ?thesis
    by (auto simp: is_rewritten_def repaired_obj_def split: sum.splits option.splits)
qed

lemma kept_written:
  assumes mem: "e \<in> set (kept_entries rm (parse_jsonl loads file))"
    and ok: "rewrites_ok loads dumps rm fx (parse_jsonl loads file)"
  shows "written_line dumps fx e \<noteq> [] \<and> newline \<notin> set (written_line dumps fx e)
         \<and> decode_line loads (written_line dumps fx e) = repaired_obj fx (fst (snd e))"
proof -
  obtain lineno obj raw where e: "e = (lineno, obj, raw)" by (cases e)
  show ?thesis
  proof (cases "is_rewritten fx obj")
    case True
    with ok mem have "codec_ok loads dumps (repaired_obj fx obj)"
      by (auto simp: rewrites_ok_def e)
    with True show ?thesis
      by (simp add: e written_line_def codec_ok_def decode_line_def)
  next
    case False
    from mem have "(lineno, obj, raw) \<in> set (parse_jsonl loads file)"
      by (simp add: kept_entries_def e)
    from parse_jsonl_entry [OF this] False not_rewritten_repaired [OF False]
    show ?thesis by (simp add: e written_line_def)
  qed
qed

lemma output_entries:
  assumes run: "for_each (apply_body dumps rm fx) applied0 (parse_jsonl loads file) = Inr st"
    and ok: "rewrites_ok loads dumps rm fx (parse_jsonl loads file)"
  shows "map snd (parse_jsonl loads (write_lines (output_lines st)))
           = repaired_entries dumps rm fx (parse_jsonl loads file)"
proof -
  let ?kept = "kept_entries rm (parse_jsonl loads file)"
  from apply_output [OF run] have out: "output_lines st = map (written_line dumps fx) ?kept"
    by (simp add: applied0_def)
  have "\<forall>l \<in> set (output_lines st). l \<noteq> [] \<and> newline \<notin> set l"
    using kept_written [OF _ ok] by (auto simp: out)
  from map_snd_parse_write [OF this]
  have "map snd (parse_jsonl loads (write_lines (output_lines st)))
          = map (\<lambda>e. (decode_line loads (written_line dumps fx e), written_line dumps fx e)) ?kept"
    by (simp add: out comp_def)
  also have "\<dots> = repaired_entries dumps rm fx (parse_jsonl loads file)"
    using kept_written [OF _ ok] by (simp add: repaired_entries_def)
  finally show ?thesis .
qed

lemma unparseable_of_empty:
  "unparseable_of es = [] \<longleftrightarrow> JNull \<notin> fst ` set (map snd es)"
  by (force simp: unparseable_of_def filter_empty_conv)

lemma repaired_unparseable:
  "JNull \<in> fst ` set (repaired_entries dumps rm fx es) \<longleftrightarrow> JNull \<in> fst ` set (map snd es)"
proof
  assume "JNull \<in> fst ` set (repaired_entries dumps rm fx es)"
  then obtain e where "e \<in> set (kept_entries rm es)" "repaired_obj fx (fst (snd e)) = JNull"
    by (auto simp: repaired_entries_def)
  then show "JNull \<in> fst ` set (map snd es)"
    by (force simp: kept_entries_def repaired_null)
next
  assume "JNull \<in> fst ` set (map snd es)"
  then obtain lineno raw where mem: "(lineno, JNull, raw) \<in> set es" by force
  then have "(lineno, JNull, raw) \<in> set (kept_entries rm es)"
    by (simp add: kept_entries_def in_removal_set_def)
  then have "(repaired_obj fx JNull, written_line dumps fx (lineno, JNull, raw))
               \<in> set (repaired_entries dumps rm fx es)"
    by (force simp: repaired_entries_def)
  moreover have "repaired_obj fx JNull = JNull"
    by (simp add: repaired_null)
  ultimately show "JNull \<in> fst ` set (repaired_entries dumps rm fx es)"
    by (metis fst_conv image_eqI)
qed

lemma verification_pass:
  assumes an: "analyze_session set_iter loads file = Inr (Corrupted f)"
    and iter: "iterates_sets set_iter"
    and ok: "rewrites_ok loads dumps (remove_ids f) (parent_fixes f) (parse_jsonl loads file)"
    and run: "for_each (apply_body dumps (remove_ids f) (parent_fixes f)) applied0
                (parse_jsonl loads file) = Inr st"
  shows "\<exists>rep. analyze_session set_iter loads (write_lines (output_lines st)) = Inr rep
           \<and> (corrupted rep \<longleftrightarrow> unparseable_lines f \<noteq> [])
           \<and> (\<forall>g. rep = Corrupted g \<longrightarrow> remove_ids g = [] \<and> parent_fixes g = Map.empty)"
proof -
  let ?es = "parse_jsonl loads file"
  let ?es' = "parse_jsonl loads (write_lines (output_lines st))"
  from an have an': "analyze_entries set_iter ?es = Inr (Corrupted f)"
    by (simp add: analyze_session_def)
  note oe = output_entries [OF run ok]
  from iter have it: "set_iter [] = []"
    using iterates_sets_def [of set_iter] by (metis set_empty)
  have st: "settled obj" if mem: "(lineno, obj, raw) \<in> set ?es'" and obj: "obj \<noteq> JNull"
    for lineno obj raw
  proof -
    from mem have "(obj, raw) \<in> set (map snd ?es')" by force
    with oe obtain e where e: "e \<in> set (kept_entries (remove_ids f) ?es)"
      and o: "obj = repaired_obj (parent_fixes f) (fst (snd e))"
      by (auto simp: repaired_entries_def)
    obtain l0 obj0 raw0 where e0: "e = (l0, obj0, raw0)" by (cases e)
    from e e0 have m0: "(l0, obj0, raw0) \<in> set ?es"
      and k0: "\<not> in_removal_set (remove_ids f) (l0, obj0, raw0)"
      by (simp_all add: kept_entries_def)
    from o obj e0 have "obj0 \<noteq> JNull" by (simp add: repaired_null)
    from kept_settled [OF an' m0 this k0] o e0 show ?thesis by simp
  qed
  have "\<exists>rep. analyze_entries set_iter ?es' = Inr rep
           \<and> (corrupted rep \<longleftrightarrow> unparseable_of ?es' \<noteq> [])
           \<and> (\<forall>g. rep = Corrupted g \<longrightarrow>
                 remove_ids g = [] \<and> parent_fixes g = Map.empty
                 \<and> unparseable_lines g = unparseable_of ?es')"
  proof (rule rescan [of set_iter, OF it])
    fix lineno obj raw
    assume "(lineno, obj, raw) \<in> set ?es'" and "obj \<noteq> JNull"
    then show "settled obj" by (rule st)
  qed
  then obtain rep where
    rep: "analyze_entries set_iter ?es' = Inr rep"
    and c: "corrupted rep \<longleftrightarrow> unparseable_of ?es' \<noteq> []"
    and g: "\<forall>g. rep = Corrupted g \<longrightarrow> remove_ids g = [] \<and> parent_fixes g = Map.empty"
    by blast
  from an' have uf: "unparseable_lines f = unparseable_of ?es"
    by (rule analyze_entries_Corrupted)
  have "unparseable_of ?es' = [] \<longleftrightarrow> unparseable_of ?es = []"
    unfolding unparseable_of_empty oe by (simp only: repaired_unparseable)
  with rep c g uf show ?thesis
    by (auto simp: analyze_session_def)
qed

section \<open>Repairing a file a second time\<close>

lemma apply_body_removed:
  assumes "apply_body dumps rm fx st e = Inr st'"
  shows "removed st' = removed st + length (filter (in_removal_set rm) [e])"
proof -
  obtain lineno obj raw where e: "e = (lineno, obj, raw)" by (cases e)
  show ?thesis
  proof (cases "obj = JNull")
    case True
    with assms show ?thesis
      by (auto simp: e apply_body_alt in_removal_set_def)
  next
    case False
    from assms False obtain k where k: "id_key obj = Inr k"
      by (auto simp: e apply_body_alt bindE_eq_Inr)
    show ?thesis
    proof (cases "k \<in> set rm")
      case True
      with assms False k show ?thesis
        by (auto simp: e apply_body_alt in_removal_set_def)
    next
      case nk: False
      from assms False k nk obtain pk where pk: "parent_key obj = Inr pk"
        by (auto simp: e apply_body_alt bindE_eq_Inr)
      show ?thesis
      proof (cases "fx pk")
        case None
        with assms False k nk pk show ?thesis
          by (auto simp: e apply_body_alt in_removal_set_def)
      next
        case (Some v)
        with assms False k nk pk show ?thesis
          by (auto simp: e apply_body_alt in_removal_set_def bindE_eq_Inr)
      qed
    qed
  qed
qed

lemma apply_removed:
  assumes "for_each (apply_body dumps rm fx) st es = Inr st'"
  shows "removed st' = removed st + length (filter (in_removal_set rm) es)"
  using assms
proof (induction es arbitrary: st)
  case Nil
  then show ?case by simp
next
  case (Cons e es)
  from Cons.prems obtain m where m: "apply_body dumps rm fx st e = Inr m"
    and rest: "for_each (apply_body dumps rm fx) m es = Inr st'"
    by (auto simp: bindE_eq_Inr)
  from Cons.IH [OF rest] apply_body_removed [OF m] show ?case by simp
qed

lemma apply_nothing:
  assumes "\<And>lineno obj raw. (lineno, obj, raw) \<in> set es \<Longrightarrow> obj \<noteq> JNull \<Longrightarrow>
             (\<exists>k. id_key obj = Inr k) \<and> (\<exists>pk. parent_key obj = Inr pk)"
  shows "\<exists>st. for_each (apply_body dumps [] Map.empty) applied0 es = Inr st
           \<and> output_lines st = map (\<lambda>e. snd (snd e)) es"
proof -
  have "\<exists>st. for_each (apply_body dumps [] Map.empty) applied0 es = Inr st"
  proof (rule for_each_succeeds)
    fix e :: entry and s assume e: "e \<in> set es"
    obtain lineno obj raw where [simp]: "e = (lineno, obj, raw)" by (cases e)
    from assms [of lineno obj raw] e show "\<exists>s'. apply_body dumps [] Map.empty s e = Inr s'"
      by (auto simp: apply_body_alt)
  qed
  then obtain st where st: "for_each (apply_body dumps [] Map.empty) applied0 es = Inr st"
    by blast
  have "kept_entries [] es = es"
    by (auto simp: kept_entries_def in_removal_set_def filter_id_conv split: sum.splits)
  moreover have "written_line dumps Map.empty e = snd (snd e)" for e :: entry
    by (cases e) (simp add: written_line_def is_rewritten_def split: sum.splits)
  ultimately show ?thesis
    using apply_output [OF st] st by (simp add: applied0_def)
qed

lemma repaired_parent_hashable:
  assumes an: "analyze_entries set_iter es = Inr (Corrupted f)"
    and pk: "parent_key obj = Inr pk"
  shows "\<exists>pk'. parent_key (repaired_obj (parent_fixes f) obj) = Inr pk'"
proof (cases "parent_fixes f pk")
  case None
  with pk show ?thesis by (simp add: repaired_obj_def)
next
  case (Some v)
  from report_parent_fixes [OF an] Some
  obtain idp where "remap_walk idp (remove_ids f) {pk} (parent_of idp pk) = Inr v"
    by blast
  from remap_walk_result [OF this] obtain h where h: "hash_key v = Inr h"
    by blast
  from pk obtain kvs where kvs: "obj = JObj kvs"
    by (cases obj) (auto simp: parent_key_def get_parent_id_def)
  then have "set_parent_id obj v = Inr (repaired_obj (parent_fixes f) obj)"
    using pk Some by (simp add: repaired_obj_def)
  from get_parent_set_parent [OF this] h show ?thesis
    by (simp add: parent_key_def)
qed

lemma fix_session_written:
  assumes "for_each (apply_body dumps (remove_ids f) (parent_fixes f)) applied0
             (parse_jsonl loads file) = Inr st"
    and "encodable (write_lines (output_lines st))"
  shows "fst (fix_session set_iter loads dumps encodable file (Corrupted f) False)
           = write_lines (output_lines st)"
  using assms by (simp add: fix_session_def applied0_def Let_def)

lemma fix_session_emptied:
  assumes "for_each (apply_body dumps (remove_ids f) (parent_fixes f)) applied0
             (parse_jsonl loads file) = Inr st"
    and "\<not> encodable (write_lines (output_lines st))"
  shows "fix_session set_iter loads dumps encodable file (Corrupted f) False
           = ([], Inl UnicodeEncodeError)"
  using assms by (simp add: fix_session_def applied0_def)

lemma fix_session_raised:
  assumes "for_each (apply_body dumps (remove_ids f) (parent_fixes f)) applied0
             (parse_jsonl loads file) = Inl e"
  shows "fix_session set_iter loads dumps encodable file (Corrupted f) False = (file, Inl e)"
  using assms by (simp add: fix_session_def applied0_def)

text \<open>A turn on the empty file leaves it empty.\<close>

lemma repair_file_empty:
  "repair_file set_iter loads dumps encodable do_fix [] = ([], Inr NothingToDo)"
  by (simp add: repair_file_def analyze_session_def analyze_entries_def parse_jsonl_def)

lemma second_repair:
  assumes an: "analyze_session set_iter loads file = Inr (Corrupted f)"
    and iter: "iterates_sets set_iter"
    and ok: "rewrites_ok loads dumps (remove_ids f) (parent_fixes f) (parse_jsonl loads file)"
    and run: "for_each (apply_body dumps (remove_ids f) (parent_fixes f)) applied0
                (parse_jsonl loads file) = Inr st"
    and enc: "encodable (write_lines (output_lines st))"
  shows "fst (repair_file set_iter loads dumps encodable True (write_lines (output_lines st)))
           = write_lines (output_lines st)"
proof -
  let ?es = "parse_jsonl loads file"
  let ?file' = "write_lines (output_lines st)"
  let ?es' = "parse_jsonl loads ?file'"
  from an have an': "analyze_entries set_iter ?es = Inr (Corrupted f)"
    by (simp add: analyze_session_def)
  from verification_pass [OF an iter ok run] obtain rep where
    rep: "analyze_session set_iter loads ?file' = Inr rep"
    and g: "\<forall>g. rep = Corrupted g \<longrightarrow> remove_ids g = [] \<and> parent_fixes g = Map.empty"
    by blast
  show ?thesis
  proof (cases rep)
    case (Clean n)
    with rep show ?thesis by (simp add: repair_file_def)
  next
    case (Corrupted g)
    with g have g0: "remove_ids g = []" "parent_fixes g = Map.empty" by simp_all
    note oe = output_entries [OF run ok]
    have keys: "(\<exists>k. id_key obj = Inr k) \<and> (\<exists>pk. parent_key obj = Inr pk)"
      if mem: "(lineno, obj, raw) \<in> set ?es'" and obj: "obj \<noteq> JNull" for lineno obj raw
    proof -
      from mem have "(obj, raw) \<in> set (map snd ?es')" by force
      with oe obtain e where e: "e \<in> set (kept_entries (remove_ids f) ?es)"
        and o: "obj = repaired_obj (parent_fixes f) (fst (snd e))"
        by (auto simp: repaired_entries_def)
      obtain l0 obj0 raw0 where e0: "e = (l0, obj0, raw0)" by (cases e)
      from e e0 have m0: "(l0, obj0, raw0) \<in> set ?es"
        and k0: "\<not> in_removal_set (remove_ids f) (l0, obj0, raw0)"
        by (simp_all add: kept_entries_def)
      from o obj e0 have n0: "obj0 \<noteq> JNull" by (simp add: repaired_null)
      from apply_entry [OF run m0 n0] k0 n0 obtain k pk where
        k: "id_key obj0 = Inr k" and pk: "parent_key obj0 = Inr pk"
        by (auto simp: in_removal_set_def)
      from repaired_parent_hashable [OF an' pk] k o e0 show ?thesis
        by (simp add: repaired_extractors)
    qed
    have "\<exists>st'. for_each (apply_body dumps [] Map.empty) applied0 ?es' = Inr st'
            \<and> output_lines st' = map (\<lambda>e. snd (snd e)) ?es'"
    proof (rule apply_nothing)
      fix lineno obj raw
      assume "(lineno, obj, raw) \<in> set ?es'" and "obj \<noteq> JNull"
      then show "(\<exists>k. id_key obj = Inr k) \<and> (\<exists>pk. parent_key obj = Inr pk)"
        by (rule keys)
    qed
    then obtain st' where
      st': "for_each (apply_body dumps [] Map.empty) applied0 ?es' = Inr st'"
      and out': "output_lines st' = map (\<lambda>e. snd (snd e)) ?es'"
      by blast
    have "map (\<lambda>e. snd (snd e)) ?es' = map snd (map snd ?es')" by simp
    also have "\<dots> = map snd (repaired_entries dumps (remove_ids f) (parent_fixes f) ?es)"
      by (simp only: oe)
    also have "\<dots> = output_lines st"
      using apply_output [OF run]
      by (simp add: repaired_entries_def applied0_def comp_def)
    finally have same: "output_lines st' = output_lines st"
      using out' by simp
    from st' g0 enc same
    have "fst (fix_session set_iter loads dumps encodable ?file' (Corrupted g) False)
            = write_lines (output_lines st')"
      by (intro fix_session_written [where encodable = encodable]) simp_all
    with rep Corrupted same show ?thesis
      by (simp add: repair_file_def)
  qed
qed

section \<open>The example transcripts, evaluated\<close>

lemma in_order_iterates: "iterates_sets in_order"
  by (simp add: iterates_sets_def in_order_def)

lemma demo_report:
  "case analyze_session in_order demo_loads demo_file of
     Inr (Corrupted f) \<Rightarrow>
       remove_ids f = [KStr ''A'', KStr ''R1''] \<and> unparseable_lines f = []
       \<and> poisoned_ids f = [KStr ''T1'']
       \<and> parent_fixes f (KStr ''R1'') = Some (JStr '''')
       \<and> corrected_text demo_dumps (remove_ids f) (parent_fixes f)
             (parse_jsonl demo_loads demo_file) = line_B_fixed @ [newline]
   | _ \<Rightarrow> False"
  by code_simp

lemma demo_codec: "codec_fits in_order demo_loads demo_dumps demo_file"
  by code_simp


lemma demo_bad_report:
  "case analyze_session in_order demo_loads demo_file_bad of
     Inr (Corrupted f) \<Rightarrow>
       remove_ids f = [KStr ''A'', KStr ''R1''] \<and> unparseable_lines f = [4]
   | _ \<Rightarrow> False"
  by code_simp

lemma demo_bad_codec: "codec_fits in_order demo_loads demo_dumps demo_file_bad"
  by code_simp

lemma demo_bad_repair:
  "repair_file in_order demo_loads demo_dumps utf8_encodable True demo_file_bad
     = (line_bad @ [newline] @ line_B_fixed @ [newline], Inr (Repaired 2 1 2 False))"
  by code_simp

lemma twin_report:
  "case analyze_session in_order twin_loads twin_file of
     Inr (Corrupted f) \<Rightarrow>
       (case for_each (apply_body twin_dumps (remove_ids f) (parent_fixes f)) applied0
               (parse_jsonl twin_loads twin_file) of
          Inr st \<Rightarrow> output_lines st = [line_S_fixed] \<and> removed st = 2
        | Inl e \<Rightarrow> False)
   | _ \<Rightarrow> False"
  by code_simp

lemma report_obtain:
  assumes "case r of Inr (Corrupted f) \<Rightarrow> P f | _ \<Rightarrow> False"
  obtains f where "r = Inr (Corrupted f)" and "P f"
  using assms by (auto split: sum.splits report.splits)

section \<open>The remap walk ends\<close>

text \<open>
  Claim C6. For every parent map, cyclic ones included, and every removal set, the
  walk started for a removed id returns: the loop, written with no termination
  argument as \<^const>\<open>walk_loop\<close>, has a result. The result is a candidate ancestor
  whenever the parent references met on the way can be hashed (strings, numbers,
  null); an unhashable one raises \<open>TypeError\<close>, which also ends the walk.
\<close>

theorem remap_walk_terminates:
  "(\<exists>r. walk_loop id_to_parent rm {rid} (parent_of id_to_parent rid) = Some r) \<and>
   ((\<forall>k v. id_to_parent k = Some v \<longrightarrow> (\<exists>h. hash_key v = Inr h)) \<longrightarrow>
      (\<exists>a. walk_loop id_to_parent rm {rid} (parent_of id_to_parent rid) = Some (Inr a)))"
proof (intro conjI impI)
  show "\<exists>r. walk_loop id_to_parent rm {rid} (parent_of id_to_parent rid) = Some r"
    by (simp add: walk_loop_remap_walk)
next
  assume h: "\<forall>k v. id_to_parent k = Some v \<longrightarrow> (\<exists>h. hash_key v = Inr h)"
  from remap_walk_hashable [OF h parent_of_hashable [OF h]]
  show "\<exists>a. walk_loop id_to_parent rm {rid} (parent_of id_to_parent rid) = Some (Inr a)"
    by (simp add: walk_loop_remap_walk)
qed

theorem remap_walk_terminates_witness:
  "(\<exists>a. walk_loop cyclic_parents [KStr ''A'', KStr ''B''] {KStr ''A''}
         (parent_of cyclic_parents (KStr ''A'')) = Some (Inr a))
   \<and> walk_loop cyclic_parents [KStr ''A'', KStr ''B''] {KStr ''A''}
         (parent_of cyclic_parents (KStr ''A'')) = Some (Inr (JStr ''A''))"
proof -
  have h: "\<forall>k v. cyclic_parents k = Some v \<longrightarrow> (\<exists>h. hash_key v = Inr h)"
    by (auto simp: cyclic_parents_def split: if_splits)
  have "walk_loop cyclic_parents [KStr ''A'', KStr ''B''] {KStr ''A''}
         (parent_of cyclic_parents (KStr ''A'')) = Some (Inr (JStr ''A''))"
    by (simp add: walk_loop_remap_walk remap_walk.simps cyclic_parents_def parent_of_def)
  with remap_walk_terminates [of cyclic_parents "[KStr ''A'', KStr ''B'']" "KStr ''A''"] h
  show ?thesis by blast
qed

section \<open>A file with no record\<close>

text \<open>
  Claim C10. When the file has no non-empty line, the analysis returns the short
  report with zero lines and \<open>corrupted = False\<close>, \<^const>\<open>fix_session\<close> returns at
  once for that report, and a whole turn of analysis and repair leaves the file
  as it was.
\<close>

theorem empty_input_untouched:
  assumes "\<forall>l \<in> set (file_lines file). l = []"
  shows "\<exists>rep. analyze_session set_iter loads file = Inr rep \<and> report_lines rep = 0
           \<and> \<not> corrupted rep
           \<and> fix_session set_iter loads dumps encodable file rep dry_run = (file, Inr NothingToDo)
           \<and> repair_file set_iter loads dumps encodable do_fix file = (file, Inr NothingToDo)"
proof -
  have "analyze_session set_iter loads file = Inr (Clean 0)"
    by (simp add: analyze_session_def analyze_entries_def parse_jsonl_blank [OF assms])
  then show ?thesis
    by (simp add: fix_session_def repair_file_def)
qed

theorem empty_input_untouched_witness:
  "\<exists>rep. analyze_session (\<lambda>ks. ks) (\<lambda>s. None) [newline, newline] = Inr rep
      \<and> report_lines rep = 0 \<and> \<not> corrupted rep
      \<and> fix_session (\<lambda>ks. ks) (\<lambda>s. None) (\<lambda>v. []) utf8_encodable [newline, newline] rep False
          = ([newline, newline], Inr NothingToDo)
      \<and> repair_file (\<lambda>ks. ks) (\<lambda>s. None) (\<lambda>v. []) utf8_encodable True [newline, newline]
          = ([newline, newline], Inr NothingToDo)"
proof -
  have h: "\<forall>l \<in> set (file_lines [newline, newline]). l = []"
    by simp
  from empty_input_untouched [OF h] show ?thesis .
qed

section \<open>The verification pass\<close>

lemma codec_fits_rewrites:
  assumes "codec_fits set_iter loads dumps file"
    and "analyze_session set_iter loads file = Inr (Corrupted f)"
  shows "rewrites_ok loads dumps (remove_ids f) (parent_fixes f) (parse_jsonl loads file)"
  using assms by (simp add: codec_fits_def)




section \<open>Idempotence\<close>

text \<open>
  Claim C3. A turn of analysis and repair run on its own result leaves the file as
  the first turn left it. A turn changes the file only when the report says
  corrupted, and that report has a non-empty removal set or a non-empty list of
  lines that did not decode: with both empty the file stays as it is, byte for byte.
  The same is assumed of \<^verbatim>\<open>json.dumps\<close>, \<^verbatim>\<open>json.loads\<close> and the iteration of sets
  as for the verification pass.
\<close>

theorem repair_idempotent:
  assumes iter: "iterates_sets set_iter"
    and codec: "codec_fits set_iter loads dumps file"
  shows "fst (repair_file set_iter loads dumps encodable True
                (fst (repair_file set_iter loads dumps encodable True file)))
           = fst (repair_file set_iter loads dumps encodable True file)
         \<and> (fst (repair_file set_iter loads dumps encodable True file) = file \<or>
            (\<exists>f. analyze_session set_iter loads file = Inr (Corrupted f)
                 \<and> (remove_ids f \<noteq> [] \<or> unparseable_lines f \<noteq> [])))"
proof (cases "analyze_session set_iter loads file")
  case (Inl e)
  then show ?thesis by (simp add: repair_file_def)
next
  case (Inr rep)
  show ?thesis
  proof (cases rep)
    case (Clean n)
    with Inr show ?thesis by (simp add: repair_file_def)
  next
    case (Corrupted f)
    with Inr have an: "analyze_session set_iter loads file = Inr (Corrupted f)" by simp
    then have "analyze_entries set_iter (parse_jsonl loads file) = Inr (Corrupted f)"
      by (simp add: analyze_session_def)
    then have dirty: "remove_ids f \<noteq> [] \<or> unparseable_lines f \<noteq> []"
      by (rule analyze_entries_Corrupted) simp
    note ok = codec_fits_rewrites [OF codec an]
    have rf: "repair_file set_iter loads dumps encodable True file
                = fix_session set_iter loads dumps encodable file (Corrupted f) False"
      using an by (simp add: repair_file_def)
    show ?thesis
    proof (cases "for_each (apply_body dumps (remove_ids f) (parent_fixes f)) applied0
                    (parse_jsonl loads file)")
      case (Inl e)
      from fix_session_raised [OF this] rf have same: "fst (repair_file set_iter loads dumps encodable True file) = file"
        by simp
      then show ?thesis by simp
    next
      case run: (Inr st)
      show ?thesis
      proof (cases "encodable (write_lines (output_lines st))")
        case True
        from fix_session_written [where encodable = encodable, OF run True] rf
        have w: "fst (repair_file set_iter loads dumps encodable True file)
                   = write_lines (output_lines st)"
          by simp
        from second_repair [where encodable = encodable, OF an iter ok run True] w an dirty show ?thesis
          by simp
      next
        case False
        from fix_session_emptied [where encodable = encodable, OF run False] rf
        have "fst (repair_file set_iter loads dumps encodable True file) = []"
          by simp
        with an dirty show ?thesis
          by (simp add: repair_file_empty)
      qed
    qed
  qed
qed

theorem repair_idempotent_witness:
  "fst (repair_file in_order demo_loads demo_dumps utf8_encodable True
          (fst (repair_file in_order demo_loads demo_dumps utf8_encodable True demo_file_bad)))
     = fst (repair_file in_order demo_loads demo_dumps utf8_encodable True demo_file_bad)
   \<and> fst (repair_file in_order demo_loads demo_dumps utf8_encodable True demo_file_bad)
       = line_bad @ [newline] @ line_B_fixed @ [newline]"
  using repair_idempotent [where encodable = utf8_encodable, OF in_order_iterates demo_bad_codec]
    demo_bad_repair
  by simp

section \<open>What the applier writes\<close>



section \<open>Removal by id\<close>

lemma broken_in_report:
  assumes an: "analyze_session set_iter loads file = Inr (Corrupted f)"
    and mem: "(lineno, obj, raw) \<in> set (parse_jsonl loads file)" and obj: "obj \<noteq> JNull"
    and br: "is_broken_assistant obj = Inr True"
  shows "\<exists>k. id_key obj = Inr k \<and> k \<in> set (broken_assistants f)"
proof -
  from an have "analyze_entries set_iter (parse_jsonl loads file) = Inr (Corrupted f)"
    by (simp add: analyze_session_def)
  then obtain s1 s2 s3 where
    p1: "for_each pass1_body scan0 (parse_jsonl loads file) = Inr s1"
    and p2: "for_each pass2_body s1 (parse_jsonl loads file) = Inr s2"
    and p3: "for_each (pass3_body set_iter) s2 (parse_jsonl loads file) = Inr s3"
    and ba: "broken_assistants f = broken_assistant_ids s3"
    by (rule analyze_entries_Corrupted)
  from pass1_entry [OF p1 mem obj] br obtain k where
    "id_key obj = Inr k" "k \<in> set (broken_assistant_ids s1)" by auto
  with pass2_frame [OF p2] pass3_frame [OF p3] ba show ?thesis by simp
qed

text \<open>
  Claim C9. The applier decides by the id alone: its output is the lines of the
  entries whose decoded record has no id in the removal set, and it counts every other
  decoded record as removed. So when a record is a broken assistant, or its id is
  listed in one of the three classes of the report, every decoded record with the
  same id is dropped with it, whatever that record is.
\<close>

theorem removal_by_id:
  assumes an: "analyze_session set_iter loads file = Inr (Corrupted f)"
    and run: "for_each (apply_body dumps (remove_ids f) (parent_fixes f)) applied0
                (parse_jsonl loads file) = Inr st"
  shows "output_lines st
           = map (written_line dumps (parent_fixes f))
               (filter (\<lambda>e. \<not> in_removal_set (remove_ids f) e) (parse_jsonl loads file))
         \<and> removed st
             = length (filter (in_removal_set (remove_ids f)) (parse_jsonl loads file))
         \<and> (\<forall>e1 \<in> set (parse_jsonl loads file). \<forall>e2 \<in> set (parse_jsonl loads file).
               fst (snd e1) \<noteq> JNull \<and> fst (snd e2) \<noteq> JNull
               \<and> id_key (fst (snd e2)) = id_key (fst (snd e1))
               \<and> (is_broken_assistant (fst (snd e1)) = Inr True
                  \<or> (\<exists>k \<in> set (broken_assistants f) \<union> set (orphan_results f)
                            \<union> set (cascade_errors f).
                        id_key (fst (snd e1)) = Inr k))
               \<longrightarrow> in_removal_set (remove_ids f) e1 \<and> in_removal_set (remove_ids f) e2)"
proof (intro conjI)
  from apply_output [OF run]
  show "output_lines st
           = map (written_line dumps (parent_fixes f))
               (filter (\<lambda>e. \<not> in_removal_set (remove_ids f) e) (parse_jsonl loads file))"
    by (simp add: applied0_def kept_entries_def)
  from apply_removed [OF run]
  show "removed st
          = length (filter (in_removal_set (remove_ids f)) (parse_jsonl loads file))"
    by (simp add: applied0_def)
  show "\<forall>e1 \<in> set (parse_jsonl loads file). \<forall>e2 \<in> set (parse_jsonl loads file).
               fst (snd e1) \<noteq> JNull \<and> fst (snd e2) \<noteq> JNull
               \<and> id_key (fst (snd e2)) = id_key (fst (snd e1))
               \<and> (is_broken_assistant (fst (snd e1)) = Inr True
                  \<or> (\<exists>k \<in> set (broken_assistants f) \<union> set (orphan_results f)
                            \<union> set (cascade_errors f).
                        id_key (fst (snd e1)) = Inr k))
               \<longrightarrow> in_removal_set (remove_ids f) e1 \<and> in_removal_set (remove_ids f) e2"
  proof (intro ballI impI)
  fix e1 e2
  assume m1: "e1 \<in> set (parse_jsonl loads file)" and m2: "e2 \<in> set (parse_jsonl loads file)"
    and h: "fst (snd e1) \<noteq> JNull \<and> fst (snd e2) \<noteq> JNull
             \<and> id_key (fst (snd e2)) = id_key (fst (snd e1))
             \<and> (is_broken_assistant (fst (snd e1)) = Inr True
                \<or> (\<exists>k \<in> set (broken_assistants f) \<union> set (orphan_results f)
                          \<union> set (cascade_errors f).
                      id_key (fst (snd e1)) = Inr k))"
  obtain l1 o1 r1 where e1: "e1 = (l1, o1, r1)" by (cases e1)
  obtain l2 o2 r2 where e2: "e2 = (l2, o2, r2)" by (cases e2)
  from an have cover: "set (remove_ids f)
      = set (broken_assistants f) \<union> set (orphan_results f) \<union> set (cascade_errors f)"
    by (simp add: analyze_session_def removal_covers)
  have "\<exists>k \<in> set (remove_ids f). id_key o1 = Inr k"
  proof (cases "is_broken_assistant o1 = Inr True")
    case True
    from broken_in_report [OF an m1 [unfolded e1] _ True] h e1 cover show ?thesis
      by auto
  next
    case False
    with h e1 cover show ?thesis by auto
  qed
  with h e1 e2
  show "in_removal_set (remove_ids f) e1 \<and> in_removal_set (remove_ids f) e2"
    by (auto simp: in_removal_set_def)
  qed
qed

theorem removal_by_id_witness:
  "case analyze_session in_order twin_loads twin_file of
     Inr (Corrupted f) \<Rightarrow>
       (case for_each (apply_body twin_dumps (remove_ids f) (parent_fixes f)) applied0
               (parse_jsonl twin_loads twin_file) of
          Inr st \<Rightarrow>
            output_lines st = [line_S_fixed] \<and> removed st = 2
            \<and> is_broken_assistant rec_A = Inr True
            \<and> is_broken_assistant rec_twin = Inr False
            \<and> in_removal_set (remove_ids f) (1, rec_A, line_A)
            \<and> in_removal_set (remove_ids f) (2, rec_twin, line_twin)
        | Inl e \<Rightarrow> False)
   | _ \<Rightarrow> False"
proof -
  from twin_report obtain f where
    an: "analyze_session in_order twin_loads twin_file = Inr (Corrupted f)"
    and c: "case for_each (apply_body twin_dumps (remove_ids f) (parent_fixes f)) applied0
               (parse_jsonl twin_loads twin_file) of
          Inr st \<Rightarrow> output_lines st = [line_S_fixed] \<and> removed st = 2
        | Inl e \<Rightarrow> False"
    by (rule report_obtain)
  from c obtain st where
    run: "for_each (apply_body twin_dumps (remove_ids f) (parent_fixes f)) applied0
               (parse_jsonl twin_loads twin_file) = Inr st"
    and out: "output_lines st = [line_S_fixed]" "removed st = 2"
    by (auto split: sum.splits)
  have es: "parse_jsonl twin_loads twin_file
              = [(1, rec_A, line_A), (2, rec_twin, line_twin), (3, rec_S, line_S)]"
    by code_simp
  have br: "is_broken_assistant rec_A = Inr True" "is_broken_assistant rec_twin = Inr False"
    by code_simp+
  have ids: "id_key rec_twin = id_key rec_A" "rec_A \<noteq> JNull" "rec_twin \<noteq> JNull"
    by code_simp+
  from removal_by_id [OF an run] have
    "\<forall>e1 \<in> set (parse_jsonl twin_loads twin_file).
       \<forall>e2 \<in> set (parse_jsonl twin_loads twin_file).
               fst (snd e1) \<noteq> JNull \<and> fst (snd e2) \<noteq> JNull
               \<and> id_key (fst (snd e2)) = id_key (fst (snd e1))
               \<and> (is_broken_assistant (fst (snd e1)) = Inr True
                  \<or> (\<exists>k \<in> set (broken_assistants f) \<union> set (orphan_results f)
                            \<union> set (cascade_errors f).
                        id_key (fst (snd e1)) = Inr k))
               \<longrightarrow> in_removal_set (remove_ids f) e1 \<and> in_removal_set (remove_ids f) e2"
    by blast
  from this [unfolded es, THEN bspec [where x = "(1, rec_A, line_A)"],
      THEN bspec [where x = "(2, rec_twin, line_twin)"]] br ids
  have "in_removal_set (remove_ids f) (1, rec_A, line_A)
        \<and> in_removal_set (remove_ids f) (2, rec_twin, line_twin)"
    by simp
  with an run out br show ?thesis by simp
qed

section \<open>Tool results that point at a poisoned tool call\<close>

text \<open>
  Claim C2, at an input where the code leaves a reference behind. The transcript
  holds the broken assistant \<open>A\<close>, whose tool call \<open>T1\<close> is poisoned, and a user
  record \<open>U\<close> with a \<^verbatim>\<open>tool_result\<close> block for \<open>T1\<close>. The analysis removes \<open>A\<close> only:
  pass 4 gathers the valid tool-call ids and stops, and \<^const>\<open>get_tool_result_ids_from_user\<close>
  is never called. The repaired file keeps \<open>U\<close> with its block for \<open>T1\<close>, and the
  verification pass calls it clean.
\<close>

theorem user_tool_result_survives:
  "(case analyze_session in_order orphan_loads orphan_file of
      Inr (Corrupted f) \<Rightarrow> poisoned_ids f = [KStr ''T1''] \<and> remove_ids f = [KStr ''A'']
    | _ \<Rightarrow> False)
   \<and> repair_file in_order orphan_loads orphan_dumps utf8_encodable True orphan_file
       = (line_U_fixed @ [newline], Inr (Repaired 1 1 1 True))
   \<and> map (\<lambda>e. fst (snd e)) (parse_jsonl orphan_loads (line_U_fixed @ [newline])) = [rec_U_fixed]
   \<and> get_tool_result_ids_from_user rec_U_fixed = Inr [KStr ''T1'']"
  by code_simp

section \<open>Cascade errors\<close>

lemma empty_error_assistant_iff:
  assumes "empty_assistant_mentioning poisoned obj" and "names_tool_use_id obj"
  shows "is_empty_error_assistant obj = Inr True"
proof -
  from assms(1) obtain kvs where kvs: "obj = JObj kvs"
    by (cases obj) (auto simp: empty_assistant_mentioning_def get_role_def)
  from assms(1) kvs obtain m where m: "obj_get kvs ''message'' JNull = JObj m"
    and role: "obj_get m ''role'' JNull = JStr ''assistant''"
    by (cases "obj_get kvs ''message'' JNull")
       (auto simp: empty_assistant_mentioning_def get_role_def)
  from m have m': "obj_get kvs ''message'' (JObj []) = JObj m"
    by (auto simp: obj_get_def split: option.splits)
  from assms m' kvs have
    "obj_get m ''content'' (JArr []) = JArr [] \<or> obj_get m ''content'' (JArr []) = JNull"
    and "str_in ''tool_use_id'' (obj_get m ''errorMessage'' (JStr [])) = Inr True"
    by (auto simp: empty_assistant_mentioning_def names_tool_use_id_def message_field_def)
  with kvs m' role show ?thesis
    by (auto simp: is_empty_error_assistant_def)
qed

lemma poisoned_any_order:
  assumes "analyze_session set_iter loads file = Inr (Corrupted f)"
    and "analyze_session set_iter' loads file = Inr (Corrupted f')"
  shows "poisoned_ids f' = poisoned_ids f"
proof -
  let ?es = "parse_jsonl loads file"
  from assms(1) have "analyze_entries set_iter ?es = Inr (Corrupted f)"
    by (simp add: analyze_session_def)
  then obtain s1 s2 s3 where
    p1: "for_each pass1_body scan0 ?es = Inr s1"
    and p2: "for_each pass2_body s1 ?es = Inr s2"
    and p3: "for_each (pass3_body set_iter) s2 ?es = Inr s3"
    and po: "poisoned_ids f = broken_tool_call_ids s3"
    by (rule analyze_entries_Corrupted)
  from assms(2) have "analyze_entries set_iter' ?es = Inr (Corrupted f')"
    by (simp add: analyze_session_def)
  then obtain t1 t2 t3 where
    q1: "for_each pass1_body scan0 ?es = Inr t1"
    and q2: "for_each pass2_body t1 ?es = Inr t2"
    and q3: "for_each (pass3_body set_iter') t2 ?es = Inr t3"
    and qo: "poisoned_ids f' = broken_tool_call_ids t3"
    by (rule analyze_entries_Corrupted)
  from p1 q1 have "t1 = s1" by simp
  with pass2_frame [OF p2] pass3_frame [OF p3] pass2_frame [OF q2] pass3_frame [OF q3] po qo
  show ?thesis by simp
qed

lemma cascade_listed:
  assumes an: "analyze_session set_iter loads file = Inr (Corrupted f)"
    and iter: "iterates_sets set_iter"
    and mem: "e \<in> set (parse_jsonl loads file)"
    and rec: "empty_assistant_mentioning (poisoned_ids f) (fst (snd e))"
    and guard: "names_tool_use_id (fst (snd e))"
  shows "listed_cascade f e"
proof -
  let ?es = "parse_jsonl loads file"
  obtain lineno obj raw where e: "e = (lineno, obj, raw)" by (cases e)
  from rec e have obj: "obj \<noteq> JNull" by (simp add: empty_assistant_mentioning_def)
  from an have an': "analyze_entries set_iter ?es = Inr (Corrupted f)"
    by (simp add: analyze_session_def)
  then obtain s1 s2 s3 where
    p2: "for_each pass2_body s1 ?es = Inr s2"
    and p3: "for_each (pass3_body set_iter) s2 ?es = Inr s3"
    and po: "poisoned_ids f = broken_tool_call_ids s3"
    and ce: "cascade_errors f = cascade_error_ids s3"
    by (rule analyze_entries_Corrupted)
  from pass3_frame [OF p3] po have po2: "broken_tool_call_ids s2 = poisoned_ids f" by simp
  from empty_error_assistant_iff rec guard e have ee: "is_empty_error_assistant obj = Inr True"
    by simp
  from pass3_entry [OF p3 mem [unfolded e] obj] ee obtain err where
    err: "message_field obj ''errorMessage'' (JStr []) = Inr err"
    and hit: "\<forall>t \<in> set (set_iter (broken_tool_call_ids s2)). key_in t err = Inr True \<longrightarrow>
               (\<exists>k. id_key obj = Inr k \<and> k \<in> set (cascade_error_ids s3))"
    by auto
  from rec e err obtain t where "t \<in> set (poisoned_ids f)" "key_in t err = Inr True"
    by (auto simp: empty_assistant_mentioning_def)
  with hit iter po2 obtain k where k: "id_key obj = Inr k" "k \<in> set (cascade_error_ids s3)"
    by (auto simp: iterates_sets_def)
  with ce removal_covers [OF an'] obj show ?thesis
    by (simp add: listed_cascade_def in_removal_set_def e)
qed

text \<open>
  Claim C7 as it is worded fails: the record \<open>E\<close> is an assistant record with empty
  content whose error message \<^verbatim>\<open>T1 failed\<close> contains the poisoned id \<open>T1\<close>, and the
  analysis does not list it, because \<^const>\<open>is_empty_error_assistant\<close> also asks for
  the text \<^verbatim>\<open>tool_use_id\<close> in the error message.
\<close>

theorem cascade_claim_counterexample:
  "\<not> cascade_claim in_order cascade_loads cascade_file"
  by code_simp

text \<open>
  Claim C7, amended. Every decoded assistant record with empty content whose error
  message contains the text \<^verbatim>\<open>tool_use_id\<close> and at least one poisoned tool-call id is
  listed as a cascade error and is in the removal set. This holds for every order in
  which the poisoned set is iterated, so it does not depend on which matching id is
  found first.
\<close>

theorem cascade_classified:
  assumes an: "analyze_session set_iter loads file = Inr (Corrupted f)"
    and iter: "iterates_sets set_iter"
    and mem: "e \<in> set (parse_jsonl loads file)"
    and rec: "empty_assistant_mentioning (poisoned_ids f) (fst (snd e))"
    and guard: "names_tool_use_id (fst (snd e))"
  shows "listed_cascade f e \<and>
         (\<forall>set_iter' f'. iterates_sets set_iter'
              \<and> analyze_session set_iter' loads file = Inr (Corrupted f')
            \<longrightarrow> listed_cascade f' e)"
proof (intro conjI allI impI)
  show "listed_cascade f e"
    by (rule cascade_listed [OF an iter mem rec guard])
next
  fix set_iter' f'
  assume h: "iterates_sets set_iter' \<and> analyze_session set_iter' loads file = Inr (Corrupted f')"
  then have i': "iterates_sets set_iter'"
    and an': "analyze_session set_iter' loads file = Inr (Corrupted f')"
    by simp_all
  from poisoned_any_order [OF an an'] rec
  have rec': "empty_assistant_mentioning (poisoned_ids f') (fst (snd e))" by simp
  show "listed_cascade f' e"
    by (rule cascade_listed [OF an' i' mem rec' guard])
qed

theorem cascade_classified_witness:
  "case analyze_session in_order cascade_loads cascade_file of
     Inr (Corrupted f) \<Rightarrow>
       listed_cascade f (3, rec_G, line_G)
       \<and> (case analyze_session rev cascade_loads cascade_file of
            Inr (Corrupted f') \<Rightarrow> listed_cascade f' (3, rec_G, line_G)
          | _ \<Rightarrow> False)
   | _ \<Rightarrow> False"
proof -
  have "case analyze_session in_order cascade_loads cascade_file of
     Inr (Corrupted f) \<Rightarrow>
       empty_assistant_mentioning (poisoned_ids f) rec_G
   | _ \<Rightarrow> False"
    by code_simp
  then obtain f where
    an: "analyze_session in_order cascade_loads cascade_file = Inr (Corrupted f)"
    and rec: "empty_assistant_mentioning (poisoned_ids f) rec_G"
    by (rule report_obtain)
  have "case analyze_session rev cascade_loads cascade_file of
     Inr (Corrupted f) \<Rightarrow> True | _ \<Rightarrow> False"
    by code_simp
  then obtain f' where
    an': "analyze_session rev cascade_loads cascade_file = Inr (Corrupted f')"
    by (rule report_obtain)
  have mem: "(3, rec_G, line_G) \<in> set (parse_jsonl cascade_loads cascade_file)"
    by code_simp
  have guard: "names_tool_use_id (fst (snd (3 :: nat, rec_G, line_G)))"
    by code_simp
  have rv: "iterates_sets rev"
    by (simp add: iterates_sets_def)
  from cascade_classified [OF an in_order_iterates mem _ guard] rec an an' rv
  show ?thesis by auto
qed

section \<open>The walk finds the nearest surviving ancestor\<close>

lemma nearest_surviving_result:
  assumes "nearest_surviving idp rm a v"
  shows "\<exists>k. hash_key v = Inr k \<and> k \<notin> set rm"
  using assms by induction auto

lemma walk_nearest:
  assumes "remap_walk idp rm seen a = Inr v"
    and "\<forall>k. hash_key a = Inr k \<longrightarrow>
           (\<forall>s \<in> seen. (s, k) \<in> (removed_parent_rel idp rm)\<^sup>+)
           \<and> (\<forall>x. (k, x) \<in> (removed_parent_rel idp rm)\<^sup>* \<longrightarrow>
                  (x, x) \<notin> (removed_parent_rel idp rm)\<^sup>+)"
  shows "nearest_surviving idp rm a v"
  using assms
proof (induction idp rm seen a rule: remap_walk.induct)
  case (1 idp rm seen a)
  let ?P = "removed_parent_rel idp rm"
  from "1.prems"(1) obtain k where k: "hash_key a = Inr k"
    by (subst (asm) remap_walk.simps) (auto split: sum.splits)
  with "1.prems"(2) have seen: "\<forall>s \<in> seen. (s, k) \<in> ?P\<^sup>+"
    and nocyc: "\<forall>x. (k, x) \<in> ?P\<^sup>* \<longrightarrow> (x, x) \<notin> ?P\<^sup>+"
    by blast+
  show ?case
  proof (cases "k \<in> set rm")
    case False
    with "1.prems"(1) k have "v = a"
      by (subst (asm) remap_walk.simps) simp
    with k False show ?thesis by (auto intro: nearest_surviving.here)
  next
    case True
    from nocyc have "(k, k) \<notin> ?P\<^sup>+" by blast
    with seen have fresh: "k \<notin> seen" by blast
    with "1.prems"(1) k True
    have rec: "remap_walk idp rm (insert k seen) (parent_of idp k) = Inr v"
      by (subst (asm) remap_walk.simps) simp
    have inv: "\<forall>k'. hash_key (parent_of idp k) = Inr k' \<longrightarrow>
           (\<forall>s \<in> insert k seen. (s, k') \<in> ?P\<^sup>+)
           \<and> (\<forall>x. (k', x) \<in> ?P\<^sup>* \<longrightarrow> (x, x) \<notin> ?P\<^sup>+)"
    proof (intro allI impI conjI ballI)
      fix k' s
      assume k': "hash_key (parent_of idp k) = Inr k'" and s: "s \<in> insert k seen"
      from k' True have edge: "(k, k') \<in> ?P"
        by (simp add: removed_parent_rel_def)
      show "(s, k') \<in> ?P\<^sup>+"
      proof (cases "s = k")
        case True
        with edge show ?thesis by blast
      next
        case False
        with s seen have "(s, k) \<in> ?P\<^sup>+" by blast
        with edge show ?thesis by (meson trancl_into_trancl)
      qed
    next
      fix k' x
      assume k': "hash_key (parent_of idp k) = Inr k'" and x: "(k', x) \<in> ?P\<^sup>*"
      from k' True have "(k, k') \<in> ?P"
        by (simp add: removed_parent_rel_def)
      with x have "(k, x) \<in> ?P\<^sup>*" by (meson converse_rtrancl_into_rtrancl)
      with nocyc show "(x, x) \<notin> ?P\<^sup>+" by blast
    qed
    from k True "1.IH" [OF k True fresh rec inv] show ?thesis
      by (rule nearest_surviving.skip)
  qed
qed

lemma fix_nearest:
  assumes w: "remap_walk idp rm {rid} (parent_of idp rid) = Inr v"
    and rid: "rid \<in> set rm"
    and nocycle: "\<forall>x. (rid, x) \<in> (removed_parent_rel idp rm)\<^sup>* \<longrightarrow>
                    (x, x) \<notin> (removed_parent_rel idp rm)\<^sup>+"
  shows "nearest_surviving idp rm (parent_of idp rid) v"
proof (rule walk_nearest [OF w], intro allI impI conjI ballI)
  fix k s
  assume k: "hash_key (parent_of idp rid) = Inr k" and "s \<in> {rid}"
  with rid show "(s, k) \<in> (removed_parent_rel idp rm)\<^sup>+"
    by (auto simp: removed_parent_rel_def)
next
  fix k x
  assume k: "hash_key (parent_of idp rid) = Inr k"
    and x: "(k, x) \<in> (removed_parent_rel idp rm)\<^sup>*"
  from k rid have "(rid, k) \<in> removed_parent_rel idp rm"
    by (simp add: removed_parent_rel_def)
  with x have "(rid, x) \<in> (removed_parent_rel idp rm)\<^sup>*"
    by (meson converse_rtrancl_into_rtrancl)
  with nocycle show "(x, x) \<notin> (removed_parent_rel idp rm)\<^sup>+" by blast
qed

lemma acyclic_by_rank:
  fixes m :: "'a \<Rightarrow> nat"
  assumes "\<And>a b. (a, b) \<in> r \<Longrightarrow> m b < m a"
  shows "acyclic r"
proof -
  have "r \<subseteq> (measure m)\<inverse>" using assms by auto
  moreover have "acyclic ((measure m)\<inverse>)"
    by (simp add: wf_acyclic)
  ultimately show ?thesis by (rule acyclic_subset [rotated])
qed

lemma demo_parents:
  "case for_each id_to_parent_body Map.empty (parse_jsonl demo_loads demo_file) of
     Inr idp \<Rightarrow> idp (KStr ''A'') = Some (JStr '''') \<and> idp (KStr ''R1'') = Some (JStr ''A'')
   | Inl e \<Rightarrow> False"
  by code_simp

lemma demo_acyclic:
  assumes "idp (KStr ''A'') = Some (JStr '''')" and "idp (KStr ''R1'') = Some (JStr ''A'')"
  shows "acyclic (removed_parent_rel idp [KStr ''A'', KStr ''R1''])"
proof (rule acyclic_by_rank)
  fix a b
  assume "(a, b) \<in> removed_parent_rel idp [KStr ''A'', KStr ''R1'']"
  with assms
  show "(if b = KStr ''R1'' then 2 else if b = KStr ''A'' then 1 else (0::nat))
          < (if a = KStr ''R1'' then 2 else if a = KStr ''A'' then 1 else 0)"
    by (auto simp: removed_parent_rel_def parent_of_def)
qed



section \<open>Dangling parent references after a repair\<close>

lemma parent_present_iff:
  "parent_present es obj \<longleftrightarrow>
     (\<exists>p. get_parent_id obj = Inr p \<and>
        (p = JStr [] \<or>
         (\<exists>k. hash_key p = Inr k \<and>
            (\<exists>e \<in> set es. fst (snd e) \<noteq> JNull \<and> id_key (fst (snd e)) = Inr k))))"
  by (auto simp: parent_present_def list_ex_iff split: sum.splits)

lemma no_dangling_iff:
  "no_dangling es \<longleftrightarrow>
     (\<forall>e \<in> set es. fst (snd e) = JNull \<or> parent_present es (fst (snd e)))"
  by (simp add: no_dangling_def list_all_iff)

lemma idp_values:
  assumes "for_each id_to_parent_body m es = Inr idp" and "idp k = Some v"
  shows "m k = Some v \<or>
         (\<exists>e \<in> set es. fst (snd e) \<noteq> JNull \<and> id_key (fst (snd e)) = Inr k
            \<and> get_parent_id (fst (snd e)) = Inr v)"
  using assms
proof (induction es arbitrary: m)
  case Nil
  then show ?case by simp
next
  case (Cons e es)
  obtain lineno obj raw where e: "e = (lineno, obj, raw)" by (cases e)
  from Cons.prems(1) obtain m' where m': "id_to_parent_body m e = Inr m'"
    and rest: "for_each id_to_parent_body m' es = Inr idp"
    by (auto simp: bindE_eq_Inr)
  from Cons.IH [OF rest Cons.prems(2)] show ?case
  proof
    assume mk: "m' k = Some v"
    show ?thesis
    proof (cases "obj = JNull")
      case True
      with m' mk e show ?thesis by (simp add: id_to_parent_body_def)
    next
      case False
      with m' e obtain k' p where "id_key obj = Inr k'" "get_parent_id obj = Inr p"
        "m' = m(k' \<mapsto> p)"
        by (auto simp: id_to_parent_body_def id_key_def bindE_eq_Inr)
      with mk False e show ?thesis by (auto split: if_splits)
    qed
  next
    assume "\<exists>e \<in> set es. fst (snd e) \<noteq> JNull \<and> id_key (fst (snd e)) = Inr k
              \<and> get_parent_id (fst (snd e)) = Inr v"
    then show ?thesis by auto
  qed
qed

lemma repaired_parent:
  assumes pk: "parent_key obj = Inr pk" and dict: "id_key obj = Inr k"
  shows "get_parent_id (repaired_obj fx obj)
           = (case fx pk of Some v \<Rightarrow> Inr v | None \<Rightarrow> get_parent_id obj)"
proof (cases "fx pk")
  case None
  with pk show ?thesis by (simp add: repaired_obj_def)
next
  case (Some v)
  from parent_key_dict [OF dict] obtain kvs where "obj = JObj kvs" by blast
  with pk Some have "set_parent_id obj v = Inr (repaired_obj fx obj)"
    by (simp add: repaired_obj_def)
  from get_parent_set_parent [OF this] Some show ?thesis by simp
qed

lemma repair_keeps_parents:
  assumes an: "analyze_session set_iter loads file = Inr (Corrupted f)"
    and ok: "rewrites_ok loads dumps (remove_ids f) (parent_fixes f) (parse_jsonl loads file)"
    and run: "for_each (apply_body dumps (remove_ids f) (parent_fixes f)) applied0
                (parse_jsonl loads file) = Inr st"
    and idp: "for_each id_to_parent_body Map.empty (parse_jsonl loads file) = Inr idp"
    and acyc: "acyclic (removed_parent_rel idp (remove_ids f))"
    and wf: "no_dangling (parse_jsonl loads file)"
  shows "no_dangling (parse_jsonl loads (write_lines (output_lines st)))"
proof -
  let ?es = "parse_jsonl loads file"
  let ?es' = "parse_jsonl loads (write_lines (output_lines st))"
  let ?rm = "remove_ids f"
  let ?fx = "parent_fixes f"
  from an have an': "analyze_entries set_iter ?es = Inr (Corrupted f)"
    by (simp add: analyze_session_def)
  from report_parent_fixes [OF an'] idp have
    d: "dom ?fx = set ?rm"
    and w: "\<And>k v. ?fx k = Some v \<Longrightarrow> remap_walk idp ?rm {k} (parent_of idp k) = Inr v"
    by auto
  note oe = output_entries [OF run ok]
  have survivor: "\<exists>e3 \<in> set ?es'. fst (snd e3) \<noteq> JNull \<and> id_key (fst (snd e3)) = Inr k"
    if mem: "e \<in> set ?es" and nn: "fst (snd e) \<noteq> JNull"
      and k: "id_key (fst (snd e)) = Inr k" and kept: "k \<notin> set ?rm" for e k
  proof -
    obtain l1 o1 r1 where eq: "e = (l1, o1, r1)" by (cases e)
    from mem nn k kept have "e \<in> set (kept_entries ?rm ?es)"
      by (simp add: eq kept_entries_def in_removal_set_def)
    then have "(repaired_obj ?fx (fst (snd e)), written_line dumps ?fx e)
                 \<in> set (repaired_entries dumps ?rm ?fx ?es)"
      by (force simp: repaired_entries_def)
    with oe obtain e3 where "e3 \<in> set ?es'" "snd e3 = (repaired_obj ?fx (fst (snd e)), written_line dumps ?fx e)"
      by (metis (no_types, lifting) imageE list.set_map)
    with nn k show ?thesis
      by (auto simp: repaired_null repaired_extractors intro!: bexI [of _ e3])
  qed
  have target: "v = JStr [] \<or>
      (\<exists>kv. hash_key v = Inr kv \<and> kv \<notin> set ?rm
         \<and> (\<exists>e \<in> set ?es. fst (snd e) \<noteq> JNull \<and> id_key (fst (snd e)) = Inr kv))"
    if fx: "?fx pk = Some v" for pk v
  proof -
    from fx d have pk: "pk \<in> set ?rm" by blast
    from acyc have nocycle: "\<forall>x. (pk, x) \<in> (removed_parent_rel idp ?rm)\<^sup>* \<longrightarrow>
                    (x, x) \<notin> (removed_parent_rel idp ?rm)\<^sup>+"
      by (simp add: acyclic_def)
    from nearest_surviving_result [OF fix_nearest [OF w [OF fx] pk nocycle]]
    obtain kv where kv: "hash_key v = Inr kv" "kv \<notin> set ?rm" by blast
    from remap_walk_result [OF w [OF fx]] obtain k0 where k0: "v = parent_of idp k0"
      by blast
    show ?thesis
    proof (cases "idp k0")
      case None
      with k0 show ?thesis by (simp add: parent_of_def)
    next
      case (Some v')
      with k0 have "idp k0 = Some v" by (simp add: parent_of_def)
      from idp_values [OF idp this] obtain e3 where
        e3: "e3 \<in> set ?es" "fst (snd e3) \<noteq> JNull" "get_parent_id (fst (snd e3)) = Inr v"
        by auto
      with wf have "parent_present ?es (fst (snd e3))"
        by (auto simp: no_dangling_iff)
      with e3 kv show ?thesis
        by (auto simp: parent_present_iff)
    qed
  qed
  show ?thesis
    unfolding no_dangling_iff
  proof (intro ballI)
    fix e' assume e': "e' \<in> set ?es'"
    show "fst (snd e') = JNull \<or> parent_present ?es' (fst (snd e'))"
    proof (cases "fst (snd e') = JNull")
      case True
      then show ?thesis by simp
    next
      case False
      from e' have "snd e' \<in> set (map snd ?es')" by simp
      with oe obtain e where e: "e \<in> set (kept_entries ?rm ?es)"
        and o: "fst (snd e') = repaired_obj ?fx (fst (snd e))"
        by (auto simp: repaired_entries_def)
      obtain l0 obj raw0 where e0: "e = (l0, obj, raw0)" by (cases e)
      from e e0 have m0: "(l0, obj, raw0) \<in> set ?es"
        and k0: "\<not> in_removal_set ?rm (l0, obj, raw0)"
        by (simp_all add: kept_entries_def)
      from o False e0 have nn: "obj \<noteq> JNull" by (simp add: repaired_null)
      from apply_entry [OF run m0 nn] k0 nn obtain k pk where
        k: "id_key obj = Inr k" and pk: "parent_key obj = Inr pk"
        by (auto simp: in_removal_set_def)
      from pk obtain p where p: "get_parent_id obj = Inr p" "hash_key p = Inr pk"
        by (auto simp: parent_key_def bindE_eq_Inr)
      from wf m0 nn have pp: "parent_present ?es obj"
        by (auto simp: no_dangling_iff)
      note gp = repaired_parent [OF pk k, of ?fx]
      have "parent_present ?es' (repaired_obj ?fx obj)"
      proof (cases "?fx pk")
        case None
        with d have out: "pk \<notin> set ?rm" by blast
        from pp p have "p = JStr [] \<or>
            (\<exists>e \<in> set ?es. fst (snd e) \<noteq> JNull \<and> id_key (fst (snd e)) = Inr pk)"
          by (auto simp: parent_present_iff)
        then show ?thesis
        proof
          assume "p = JStr []"
          with gp None p show ?thesis by (simp add: parent_present_iff)
        next
          assume "\<exists>e \<in> set ?es. fst (snd e) \<noteq> JNull \<and> id_key (fst (snd e)) = Inr pk"
          then obtain e2 where "e2 \<in> set ?es" "fst (snd e2) \<noteq> JNull"
            "id_key (fst (snd e2)) = Inr pk" by blast
          from survivor [OF this out] gp None p show ?thesis
            by (auto simp: parent_present_iff)
        qed
      next
        case (Some v)
        from target [OF Some] show ?thesis
        proof
          assume "v = JStr []"
          with gp Some show ?thesis by (simp add: parent_present_iff)
        next
          assume "\<exists>kv. hash_key v = Inr kv \<and> kv \<notin> set ?rm
             \<and> (\<exists>e \<in> set ?es. fst (snd e) \<noteq> JNull \<and> id_key (fst (snd e)) = Inr kv)"
          then obtain kv e2 where kv: "hash_key v = Inr kv" "kv \<notin> set ?rm"
            and e2: "e2 \<in> set ?es" "fst (snd e2) \<noteq> JNull" "id_key (fst (snd e2)) = Inr kv"
            by blast
          from survivor [OF e2 kv(2)] gp Some kv(1) show ?thesis
            by (auto simp: parent_present_iff)
        qed
      qed
      with o e0 show ?thesis by simp
    qed
  qed
qed

text \<open>
  Claim C1 as it is worded fails. In the repaired file of the example the record \<open>X\<close>
  still has the parent \<open>ghost\<close>, which no record of the input carried as its id, and
  the record \<open>C\<close> has the parent \<open>A\<close>: its removed parent \<open>A\<close> and \<open>A\<close>'s removed
  parent \<open>B\<close> point at each other, and the cycle guard ends the walk at \<open>A\<close>.
\<close>

theorem no_dangling_counterexample:
  "map (\<lambda>e. fst (snd e)) loop_output = [rec_X, rec_C]
   \<and> \<not> parent_present loop_output rec_X
   \<and> \<not> parent_present loop_output rec_C
   \<and> \<not> no_dangling loop_output"
  by code_simp

text \<open>
  Claim C1, amended. The repair adds no dangling reference: when every decoded record
  of the input has a parent id that is empty or the id of a decoded record of the
  input, and the parent links between removed records form no cycle, then every
  decoded record of the file that a turn of analysis and repair leaves behind has a
  parent id that is empty or the id of a decoded record of that file.
  \<^verbatim>\<open>json.dumps\<close> and \<^verbatim>\<open>json.loads\<close> are assumed to round-trip the records the
  repair re-serialises.
\<close>

theorem no_new_dangling:
  assumes codec: "codec_fits set_iter loads dumps file"
    and wf: "no_dangling (parse_jsonl loads file)"
    and acyc: "\<forall>f idp. analyze_session set_iter loads file = Inr (Corrupted f) \<longrightarrow>
                 for_each id_to_parent_body Map.empty (parse_jsonl loads file) = Inr idp \<longrightarrow>
                 acyclic (removed_parent_rel idp (remove_ids f))"
  shows "no_dangling (parse_jsonl loads (fst (repair_file set_iter loads dumps encodable True file)))"
proof (cases "analyze_session set_iter loads file")
  case (Inl e)
  with wf show ?thesis by (simp add: repair_file_def)
next
  case (Inr rep)
  show ?thesis
  proof (cases rep)
    case (Clean n)
    with Inr wf show ?thesis by (simp add: repair_file_def)
  next
    case (Corrupted f)
    with Inr have an: "analyze_session set_iter loads file = Inr (Corrupted f)" by simp
    note ok = codec_fits_rewrites [OF codec an]
    have rf: "repair_file set_iter loads dumps encodable True file
                = fix_session set_iter loads dumps encodable file (Corrupted f) False"
      using an by (simp add: repair_file_def)
    show ?thesis
    proof (cases "for_each (apply_body dumps (remove_ids f) (parent_fixes f)) applied0
                    (parse_jsonl loads file)")
      case (Inl e)
      from fix_session_raised [OF this] rf wf show ?thesis by simp
    next
      case run: (Inr st)
      from an have "analyze_entries set_iter (parse_jsonl loads file) = Inr (Corrupted f)"
        by (simp add: analyze_session_def)
      from report_parent_fixes [OF this] obtain idp where
        idp: "for_each id_to_parent_body Map.empty (parse_jsonl loads file) = Inr idp"
        by blast
      with acyc an have ac: "acyclic (removed_parent_rel idp (remove_ids f))" by blast
      show ?thesis
      proof (cases "encodable (write_lines (output_lines st))")
        case True
        from repair_keeps_parents [OF an ok run idp ac wf] fix_session_written [where encodable = encodable, OF run True] rf
        show ?thesis by simp
      next
        case False
        from fix_session_emptied [where encodable = encodable, OF run False] rf show ?thesis
          by (simp add: parse_jsonl_def no_dangling_def)
      qed
    qed
  qed
qed

theorem no_new_dangling_witness:
  "no_dangling (parse_jsonl demo_loads
      (fst (repair_file in_order demo_loads demo_dumps utf8_encodable True demo_file)))"
proof -
  have wf: "no_dangling (parse_jsonl demo_loads demo_file)"
    by code_simp
  have acyc: "\<forall>f idp. analyze_session in_order demo_loads demo_file = Inr (Corrupted f) \<longrightarrow>
                 for_each id_to_parent_body Map.empty (parse_jsonl demo_loads demo_file) = Inr idp \<longrightarrow>
                 acyclic (removed_parent_rel idp (remove_ids f))"
  proof (intro allI impI)
    fix f idp
    assume an: "analyze_session in_order demo_loads demo_file = Inr (Corrupted f)"
      and idp: "for_each id_to_parent_body Map.empty (parse_jsonl demo_loads demo_file) = Inr idp"
    from demo_report an have rm: "remove_ids f = [KStr ''A'', KStr ''R1'']" by simp
    from demo_parents idp
    have "idp (KStr ''A'') = Some (JStr '''')" "idp (KStr ''R1'') = Some (JStr ''A'')"
      by simp_all
    from demo_acyclic [OF this] rm
    show "acyclic (removed_parent_rel idp (remove_ids f))" by simp
  qed
  from no_new_dangling [where encodable = utf8_encodable, OF demo_codec wf acyc]
  show ?thesis .
qed

end
